theory Spec2Isabelle
  imports Complex_Main
begin

section \<open>Python values and the outside world\<close>

text \<open>
  The orchestrator core of \<open>src/orchestrator.py\<close>: the circuit breaker, the token-bucket
  rate limiter, the state manager and the cycle engine.

  A \<open>datetime\<close> is a number of seconds on the wall clock; the difference of two of them is
  what \<open>timedelta.total_seconds()\<close> returns. Python floats are read as real numbers.
  An exception is a value: every function that can raise returns a sum whose \<open>Inl\<close> branch
  carries the exception. Only instances of \<open>Exception\<close> are modelled, the ones an
  \<open>except Exception\<close> clause catches.
\<close>

type_synonym datetime = real

datatype py_exception =
    Exception (message: string)
  | RuntimeError (message: string)
  | KeyError (message: string)
  | AttributeError (message: string)
  | OSError (message: string)
  | JSONDecodeError (message: string)
  | ZeroDivisionError (message: string)
  | TypeError (message: string)

datatype CyclePhase = DATA_SCAN | IDEA | CODE_EDIT | BACKTEST | REPORT | COMPLETE

fun phase_value :: "CyclePhase \<Rightarrow> string" where
  "phase_value DATA_SCAN = ''data_scan''"
| "phase_value IDEA = ''idea''"
| "phase_value CODE_EDIT = ''code_edit''"
| "phase_value BACKTEST = ''backtest''"
| "phase_value REPORT = ''report''"
| "phase_value COMPLETE = ''complete''"

text \<open>\<open>repr\<close> of a phase, which is what \<open>str\<close> of a \<open>KeyError\<close> on it shows.\<close>

fun phase_name :: "CyclePhase \<Rightarrow> string" where
  "phase_name DATA_SCAN = ''DATA_SCAN''"
| "phase_name IDEA = ''IDEA''"
| "phase_name CODE_EDIT = ''CODE_EDIT''"
| "phase_name BACKTEST = ''BACKTEST''"
| "phase_name REPORT = ''REPORT''"
| "phase_name COMPLETE = ''COMPLETE''"

definition phase_repr :: "CyclePhase \<Rightarrow> string" where
  "phase_repr p = ''<CyclePhase.'' @ phase_name p @ '': '' @ [CHR 0x27] @ phase_value p @ [CHR 0x27] @ ''>''"

text \<open>Iterating over the enum (\<open>for phase in CyclePhase\<close>) follows the declaration order.\<close>

definition all_phases :: "CyclePhase list" where
  "all_phases = [DATA_SCAN, IDEA, CODE_EDIT, BACKTEST, REPORT, COMPLETE]"


record CycleResult =
  cycle_id :: string
  duration_seconds :: real
  phases_completed :: "CyclePhase list"
  success :: bool
  "output" :: string
  learnings :: "string list"

subsection \<open>JSON values and the files of the state directory\<close>

text \<open>
  What \<open>json.loads\<close> returns: \<open>None\<close>, a bool, a number, a string, a list or a dict (a
  list of entries in insertion order, no key twice). \<open>dict_get\<close> is \<open>d.get(k)\<close> and
  \<open>k in d\<close>; \<open>dict_set\<close> is \<open>d[k] = v\<close>.
\<close>

datatype json =
    JNull
  | JBool bool
  | JNum real
  | JStr string
  | JList "json list"
  | JObject "(string \<times> json) list"

definition dict_get :: "(string \<times> json) list \<Rightarrow> string \<Rightarrow> json option" where
  "dict_get entries k = map_of entries k"

fun dict_set :: "string \<Rightarrow> json \<Rightarrow> (string \<times> json) list \<Rightarrow> (string \<times> json) list" where
  "dict_set k v [] = [(k, v)]"
| "dict_set k v ((k', v') # entries) =
     (if k' = k then (k, v) # entries else (k', v') # dict_set k v entries)"

text \<open>
  A path of the state directory is in one of five states: no file there; not examinable
  (a directory on the way cannot be searched, so that \<open>Path.exists()\<close> itself raises
  \<open>PermissionError\<close>, as it does up to Python 3.11 for every error other than ENOENT,
  ENOTDIR, EBADF and ELOOP); a file that cannot be read (\<open>read_text\<close> raises; writing it is not hindered); a file whose
  text \<open>json.loads\<close> rejects; a file holding the text of a JSON value, of whatever shape.
  \<open>json.dumps\<close> followed by \<open>json.loads\<close> gives the value back.
\<close>

datatype file_state = Missing | Inaccessible | Unreadable | Garbled string | Holds json

record folder =
  progress_copy :: file_state
  prd_copy :: file_state

text \<open>
  The state directory with its three files, and the archive directory with its folders.
  \<open>read_only\<close> stands for every condition under which a write raises \<open>OSError\<close>
  (read-only or full file system).
\<close>

record disk =
  branch_file :: file_state
  progress_file :: file_state
  prd_file :: file_state
  archive_dir :: "string \<rightharpoonup> folder"
  read_only :: bool

subsection \<open>The world\<close>

text \<open>
  Everything outside the objects: \<open>clock\<close> holds the readings that the coming calls of
  \<open>datetime.now()\<close> return, in order (no assumption is made on them: the wall clock may
  stand still or step back); \<open>calendar\<close> renders a reading as \<open>strftime "%Y-%m-%d"\<close> and
  \<open>isoformat\<close> as \<open>isoformat()\<close>; \<open>slept\<close> logs the durations handed to
  \<open>asyncio.sleep\<close>; \<open>disk\<close> is the state and archive directories; \<open>ext\<close> is whatever
  else the wrapped work and the phase handlers touch.
\<close>

record 'u world =
  clock :: "nat \<Rightarrow> datetime"
  calendar :: "datetime \<Rightarrow> string"
  isoformat :: "datetime \<Rightarrow> string"
  slept :: "real list"
  disk :: disk
  ext :: 'u

definition now :: "'u world \<Rightarrow> datetime \<times> 'u world" where
  "now w = (clock w 0, w\<lparr>clock := (\<lambda>n. clock w (Suc n))\<rparr>)"

definition asyncio_sleep :: "real \<Rightarrow> 'u world \<Rightarrow> 'u world" where
  "asyncio_sleep d w = w\<lparr>slept := slept w @ [d]\<rparr>"

section \<open>CircuitBreaker\<close>

datatype breaker_state = CLOSED | OPEN | HALF_OPEN

record CircuitBreaker =
  failure_threshold :: int
  recovery_timeout :: int
  failure_count :: int
  last_failure_time :: "datetime option"
  state :: breaker_state

text \<open>\<open>CircuitBreaker.__init__\<close>\<close>

definition CircuitBreaker_init :: "int \<Rightarrow> int \<Rightarrow> CircuitBreaker" where
  "CircuitBreaker_init threshold timeout =
     \<lparr>failure_threshold = threshold, recovery_timeout = timeout, failure_count = 0,
      last_failure_time = None, state = CLOSED\<rparr>"

text \<open>
  The argument of \<open>call\<close>: a plain function, which runs in the world and returns or raises,
  or a coroutine function (\<open>inspect.iscoroutinefunction\<close> holds), which \<open>call\<close> never runs.
\<close>

datatype ('u, 'a) callable =
    Function "'u world \<Rightarrow> (py_exception + 'a) \<times> 'u world"
  | CoroutineFunction "'u world \<Rightarrow> (py_exception + 'a) \<times> 'u world"

definition should_attempt_reset :: "CircuitBreaker \<Rightarrow> 'u world \<Rightarrow> bool \<times> 'u world" where
  "should_attempt_reset cb w =
     (case last_failure_time cb of
        None \<Rightarrow> (False, w)
      | Some t0 \<Rightarrow>
          (let (t, w1) = now w;
               elapsed = t - t0
           in (elapsed \<ge> real_of_int (recovery_timeout cb), w1)))"

definition on_success :: "CircuitBreaker \<Rightarrow> CircuitBreaker" where
  "on_success cb = cb\<lparr>failure_count := 0, state := CLOSED\<rparr>"

definition on_failure :: "CircuitBreaker \<Rightarrow> 'u world \<Rightarrow> CircuitBreaker \<times> 'u world" where
  "on_failure cb w =
     (let cb1 = cb\<lparr>failure_count := failure_count cb + 1\<rparr>;
          (t, w1) = now w;
          cb2 = cb1\<lparr>last_failure_time := Some t\<rparr>
      in if failure_count cb2 \<ge> failure_threshold cb2
         then (cb2\<lparr>state := OPEN\<rparr>, w1)
         else (cb2, w1))"

definition breaker_open_error :: py_exception where
  "breaker_open_error = Exception ''Circuit breaker is OPEN - failing fast''"

definition async_unsupported_error :: py_exception where
  "async_unsupported_error =
     RuntimeError (''Circuit breaker does not support async functions directly. '' @
                   ''Use 'await execute_phase()' pattern instead.'')"

text \<open>
  The gate in front of the \<open>try\<close> block of \<open>call\<close>: \<open>Inl\<close> is the fail-fast raise, which
  happens outside the \<open>try\<close> and so never reaches \<open>_on_failure\<close>.
\<close>

definition gate :: "CircuitBreaker \<Rightarrow> 'u world \<Rightarrow> (py_exception + CircuitBreaker) \<times> 'u world" where
  "gate cb w =
     (if state cb = OPEN then
        (let (reset, w1) = should_attempt_reset cb w
         in if reset then (Inr (cb\<lparr>state := HALF_OPEN\<rparr>), w1)
            else (Inl breaker_open_error, w1))
      else (Inr cb, w))"

definition call ::
  "CircuitBreaker \<Rightarrow> ('u, 'a) callable \<Rightarrow> 'u world \<Rightarrow> (py_exception + 'a) \<times> CircuitBreaker \<times> 'u world"
where
  "call cb func w =
     (case gate cb w of
        (Inl e, w1) \<Rightarrow> (Inl e, cb, w1)
      | (Inr cb1, w1) \<Rightarrow>
          (case func of
             CoroutineFunction _ \<Rightarrow>
               (let (cb2, w2) = on_failure cb1 w1 in (Inl async_unsupported_error, cb2, w2))
           | Function f \<Rightarrow>
               (case f w1 of
                  (Inr result, w2) \<Rightarrow> (Inr result, on_success cb1, w2)
                | (Inl e, w2) \<Rightarrow>
                    (let (cb2, w3) = on_failure cb1 w2 in (Inl e, cb2, w3)))))"

text \<open>Consecutive calls on one breaker, each with its own work, in one world.\<close>

fun calls ::
  "CircuitBreaker \<Rightarrow> ('u, 'a) callable list \<Rightarrow> 'u world \<Rightarrow>
   (py_exception + 'a) list \<times> CircuitBreaker \<times> 'u world"
where
  "calls cb [] w = ([], cb, w)"
| "calls cb (func # funcs) w =
     (case call cb func w of (r, cb1, w1) \<Rightarrow>
        (case calls cb1 funcs w1 of (rs, cb2, w2) \<Rightarrow> (r # rs, cb2, w2)))"

text \<open>Work that raises in whatever world it is run.\<close>

definition raising :: "('u, 'a) callable \<Rightarrow> bool" where
  "raising func = (case func of Function f \<Rightarrow> (\<forall>w. isl (fst (f w))) | CoroutineFunction _ \<Rightarrow> False)"

definition is_coroutine :: "('u, 'a) callable \<Rightarrow> bool" where
  "is_coroutine func = (case func of Function _ \<Rightarrow> False | CoroutineFunction _ \<Rightarrow> True)"

text \<open>
  What every breaker built by \<open>__init__\<close> and driven through \<open>call\<close> satisfies: it is
  OPEN only after \<open>_on_failure\<close> has counted up to the threshold and stamped the failure
  time, and HALF_OPEN only inside a call.
\<close>

definition breaker_inv :: "CircuitBreaker \<Rightarrow> bool" where
  "breaker_inv cb =
     (state cb \<noteq> HALF_OPEN \<and>
      (state cb = OPEN \<longrightarrow>
         failure_threshold cb \<le> failure_count cb \<and> last_failure_time cb \<noteq> None))"

section \<open>RateLimiter\<close>

text \<open>
  The bucket levels start as the integer limits and become floats at the first refill;
  they are real numbers here. \<open>asyncio.sleep\<close> is logged in the world and does not by
  itself move the clock: what the clock reads afterwards is up to the world.
\<close>

record RateLimiter =
  rpm_limit :: int
  rph_limit :: int
  minute_bucket :: real
  hour_bucket :: real
  last_refill :: datetime
  request_times :: "datetime list"

text \<open>\<open>RateLimiter.__init__\<close>\<close>

definition RateLimiter_init :: "int \<Rightarrow> int \<Rightarrow> 'u world \<Rightarrow> RateLimiter \<times> 'u world" where
  "RateLimiter_init requests_per_minute requests_per_hour w =
     (let (t, w1) = now w
      in (\<lparr>rpm_limit = requests_per_minute, rph_limit = requests_per_hour,
           minute_bucket = real_of_int requests_per_minute,
           hour_bucket = real_of_int requests_per_hour,
           last_refill = t, request_times = []\<rparr>, w1))"

definition refill_buckets :: "RateLimiter \<Rightarrow> 'u world \<Rightarrow> RateLimiter \<times> 'u world" where
  "refill_buckets rl w =
     (let (t, w1) = now w;
          elapsed = t - last_refill rl
      in if elapsed > 0 then
           (rl\<lparr>minute_bucket :=
                 min (real_of_int (rpm_limit rl))
                     (minute_bucket rl + (elapsed / 60) * real_of_int (rpm_limit rl)),
               hour_bucket :=
                 min (real_of_int (rph_limit rl))
                     (hour_bucket rl + (elapsed / 3600) * real_of_int (rph_limit rl)),
               last_refill := t\<rparr>, w1)
         else (rl, w1))"

definition clean_old_requests :: "RateLimiter \<Rightarrow> 'u world \<Rightarrow> RateLimiter \<times> 'u world" where
  "clean_old_requests rl w =
     (let (t, w1) = now w;
          cutoff = t - 3600
      in (rl\<lparr>request_times := filter (\<lambda>x. x > cutoff) (request_times rl)\<rparr>, w1))"

text \<open>Lines 189 to 196 of \<open>acquire\<close>: the multiplier, from the last ten recorded requests.\<close>

definition backoff_multiplier :: "RateLimiter \<Rightarrow> real" where
  "backoff_multiplier rl =
     (if length (request_times rl) \<ge> 10 then
        (let recent_requests = drop (length (request_times rl) - 10) (request_times rl);
             time_span = last recent_requests - hd recent_requests
         in if time_span < 60 then 2 else 1)
      else 1)"

text \<open>Lines 199 to 211: \<open>wait_time\<close>, each test of a bucket reading the clock when it holds.\<close>

definition wait_time :: "RateLimiter \<Rightarrow> real \<Rightarrow> 'u world \<Rightarrow> real \<times> 'u world" where
  "wait_time rl backoff w =
     (let wait0 = 0;
          (wait1, w1) =
            (if minute_bucket rl < 1 then
               (let (t, w') = now w;
                    elapsed_since_refill = t - last_refill rl
                in (max wait0 (60 - elapsed_since_refill), w'))
             else (wait0, w));
          (wait2, w2) =
            (if hour_bucket rl < 1 then
               (let (t, w') = now w1;
                    elapsed_since_refill = t - last_refill rl
                in (max wait1 (3600 - elapsed_since_refill), w'))
             else (wait1, w1))
      in (wait2 * backoff, w2))"

text \<open>The first half of \<open>acquire\<close>, up to the value of \<open>wait_time\<close> at line 211.\<close>

definition compute_wait_time :: "RateLimiter \<Rightarrow> 'u world \<Rightarrow> real \<times> RateLimiter \<times> 'u world" where
  "compute_wait_time rl w =
     (let (rl1, w1) = refill_buckets rl w;
          (rl2, w2) = clean_old_requests rl1 w1;
          (wait, w3) = wait_time rl2 (backoff_multiplier rl2) w2
      in (wait, rl2, w3))"

definition acquire :: "RateLimiter \<Rightarrow> 'u world \<Rightarrow> RateLimiter \<times> 'u world" where
  "acquire rl w =
     (let (wait, rl2, w3) = compute_wait_time rl w;
          (rl3, w4) = (if wait > 0 then refill_buckets rl2 (asyncio_sleep wait w3) else (rl2, w3));
          w5 = (if minute_bucket rl3 < 1 \<or> hour_bucket rl3 < 1 then asyncio_sleep 1 w4 else w4);
          rl4 = rl3\<lparr>minute_bucket := max 0 (minute_bucket rl3 - 1),
                    hour_bucket := max 0 (hour_bucket rl3 - 1)\<rparr>;
          (t, w6) = now w5
      in (rl4\<lparr>request_times := request_times rl4 @ [t]\<rparr>, w6))"

text \<open>Any sequence of the two operations on one limiter.\<close>

datatype limiter_op = Acquire | Refill

fun run_ops :: "limiter_op list \<Rightarrow> RateLimiter \<Rightarrow> 'u world \<Rightarrow> RateLimiter \<times> 'u world" where
  "run_ops [] rl w = (rl, w)"
| "run_ops (Acquire # ops) rl w = (case acquire rl w of (rl1, w1) \<Rightarrow> run_ops ops rl1 w1)"
| "run_ops (Refill # ops) rl w = (case refill_buckets rl w of (rl1, w1) \<Rightarrow> run_ops ops rl1 w1)"

text \<open>Each bucket between 0 and its configured maximum.\<close>

definition buckets_in_range :: "RateLimiter \<Rightarrow> bool" where
  "buckets_in_range rl =
     (0 \<le> minute_bucket rl \<and> minute_bucket rl \<le> real_of_int (rpm_limit rl) \<and>
      0 \<le> hour_bucket rl \<and> hour_bucket rl \<le> real_of_int (rph_limit rl))"

section \<open>StateManager\<close>

text \<open>
  The state manager owns no data of its own: its files are the \<open>disk\<close> of the world.
  \<open>exists_file\<close> is \<open>Path.exists()\<close>, \<open>read_json\<close> is \<open>json.loads(path.read_text())\<close>,
  \<open>write_guard\<close> is what \<open>write_text\<close> and \<open>mkdir\<close> raise before they change anything.
\<close>

definition permission_denied :: py_exception where
  "permission_denied = OSError ''[Errno 13] Permission denied''"

definition exists_file :: "file_state \<Rightarrow> py_exception + bool" where
  "exists_file f =
     (case f of
        Inaccessible \<Rightarrow> Inl permission_denied
      | Missing \<Rightarrow> Inr False
      | _ \<Rightarrow> Inr True)"

definition read_json :: "file_state \<Rightarrow> py_exception + json" where
  "read_json f =
     (case f of
        Missing \<Rightarrow> Inl (OSError ''[Errno 2] No such file or directory'')
      | Inaccessible \<Rightarrow> Inl permission_denied
      | Unreadable \<Rightarrow> Inl permission_denied
      | Garbled text \<Rightarrow> Inl (JSONDecodeError ''Expecting value'')
      | Holds document \<Rightarrow> Inr document)"

definition write_guard :: "disk \<Rightarrow> file_state \<Rightarrow> py_exception + unit" where
  "write_guard d target =
     (if read_only d then Inl (OSError ''[Errno 30] Read-only file system'')
      else if target = Inaccessible then Inl permission_denied
      else Inr ())"

text \<open>
  \<open>get_current_branch\<close>: \<open>exists()\<close> is outside the \<open>try\<close>; inside it, a read that raises
  and the \<open>AttributeError\<close> of \<open>data.get\<close> on a value that is no dict are swallowed by the
  bare \<open>except\<close>. \<open>JNull\<close> is \<open>None\<close>.
\<close>

definition get_current_branch :: "'u world \<Rightarrow> py_exception + json" where
  "get_current_branch w =
     (case exists_file (branch_file (disk w)) of
        Inl e \<Rightarrow> Inl e
      | Inr False \<Rightarrow> Inr JNull
      | Inr True \<Rightarrow>
          (case read_json (branch_file (disk w)) of
             Inl e \<Rightarrow> Inr JNull
           | Inr data \<Rightarrow>
               (case data of
                  JObject entries \<Rightarrow>
                    Inr (case dict_get entries ''branch'' of None \<Rightarrow> JNull | Some v \<Rightarrow> v)
                | _ \<Rightarrow> Inr JNull)))"

definition set_current_branch :: "string \<Rightarrow> 'u world \<Rightarrow> (py_exception + unit) \<times> 'u world" where
  "set_current_branch new_branch w =
     (let (t, w1) = now w;
          text = JObject [(''branch'', JStr new_branch), (''timestamp'', JStr (isoformat w1 t))]
      in case write_guard (disk w1) (branch_file (disk w1)) of
           Inl e \<Rightarrow> (Inl e, w1)
         | Inr _ \<Rightarrow> (Inr (), w1\<lparr>disk := (disk w1)\<lparr>branch_file := Holds text\<rparr>\<rparr>))"

definition should_archive :: "string \<Rightarrow> 'u world \<Rightarrow> py_exception + bool" where
  "should_archive current_branch w =
     (case get_current_branch w of
        Inl e \<Rightarrow> Inl e
      | Inr last_branch \<Rightarrow> Inr (last_branch \<noteq> JNull \<and> last_branch \<noteq> JStr current_branch))"

text \<open>\<open>last_branch.replace("/", "-")\<close>\<close>

definition sanitize :: "string \<Rightarrow> string" where
  "sanitize name = map (\<lambda>c. if c = CHR ''/'' then CHR ''-'' else c) name"

definition empty_folder :: folder where
  "empty_folder = \<lparr>progress_copy = Missing, prd_copy = Missing\<rparr>"

definition put_folder :: "string \<Rightarrow> folder \<Rightarrow> 'u world \<Rightarrow> 'u world" where
  "put_folder name fd w = w\<lparr>disk := (disk w)\<lparr>archive_dir := (archive_dir (disk w))(name \<mapsto> fd)\<rparr>\<rparr>"

text \<open>
  One turn of the copy loop of \<open>archive_current_state\<close>:
  \<open>if file_path.exists(): dest.write_text(file_path.read_text())\<close>. The result is what the
  destination then is.
\<close>

definition copy_file :: "disk \<Rightarrow> file_state \<Rightarrow> file_state \<Rightarrow> py_exception + file_state" where
  "copy_file d source dest =
     (case exists_file source of
        Inl e \<Rightarrow> Inl e
      | Inr False \<Rightarrow> Inr dest
      | Inr True \<Rightarrow>
          (if source = Unreadable then Inl permission_denied
           else (case write_guard d dest of Inl e \<Rightarrow> Inl e | Inr _ \<Rightarrow> Inr source)))"

text \<open>
  \<open>archive_current_state\<close>: the folder is made first (\<open>mkdir(exist_ok=True)\<close> keeps what an
  existing folder holds), then each state file that exists is copied, then the marker is
  set; whatever raises on the way leaves what was done so far and is not caught.
\<close>

definition archive_current_state :: "string \<Rightarrow> 'u world \<Rightarrow> (py_exception + unit) \<times> 'u world" where
  "archive_current_state current_branch w =
     (case should_archive current_branch w of
        Inl e \<Rightarrow> (Inl e, w)
      | Inr False \<Rightarrow> (Inr (), w)
      | Inr True \<Rightarrow>
          (case get_current_branch w of
             Inl e \<Rightarrow> (Inl e, w)
           | Inr last_branch \<Rightarrow>
               (let (t, w1) = now w;
                    date_str = calendar w1 t
                in case last_branch of
                     JStr name \<Rightarrow>
                       (let folder_name = sanitize name;
                            archive_folder = date_str @ ''-'' @ folder_name;
                            d = disk w1
                        in case (case archive_dir d archive_folder of
                                   Some fd \<Rightarrow> Inr fd
                                 | None \<Rightarrow>
                                     if read_only d
                                     then Inl (OSError ''[Errno 30] Read-only file system'')
                                     else Inr empty_folder) of
                             Inl e \<Rightarrow> (Inl e, w1)
                           | Inr fd0 \<Rightarrow>
                               (let w2 = put_folder archive_folder fd0 w1
                                in case copy_file d (progress_file d) (progress_copy fd0) of
                                     Inl e \<Rightarrow> (Inl e, w2)
                                   | Inr pc \<Rightarrow>
                                       (let fd1 = fd0\<lparr>progress_copy := pc\<rparr>;
                                            w3 = put_folder archive_folder fd1 w2
                                        in case copy_file d (prd_file d) (prd_copy fd1) of
                                             Inl e \<Rightarrow> (Inl e, w3)
                                           | Inr qc \<Rightarrow>
                                               set_current_branch current_branch
                                                 (put_folder archive_folder (fd1\<lparr>prd_copy := qc\<rparr>) w3))))
                   | _ \<Rightarrow> (Inl (AttributeError ''object has no attribute replace''), w1))))"

text \<open>
  \<open>load_progress\<close>: \<open>exists()\<close> is outside the \<open>try\<close>; the bare \<open>except: pass\<close> turns
  every raise of the read into the fall-through to the default document. What parses is
  returned as it is.
\<close>

definition default_progress :: "'u world \<Rightarrow> datetime \<Rightarrow> json" where
  "default_progress w t =
     JObject [(''cycles'', JList []), (''patterns'', JList []), (''start_time'', JStr (isoformat w t))]"

definition load_progress :: "'u world \<Rightarrow> (py_exception + json) \<times> 'u world" where
  "load_progress w =
     (case exists_file (progress_file (disk w)) of
        Inl e \<Rightarrow> (Inl e, w)
      | Inr present \<Rightarrow>
          (case (if present then
                   (case read_json (progress_file (disk w)) of
                      Inr document \<Rightarrow> Some document
                    | Inl e \<Rightarrow> None)
                 else None) of
             Some document \<Rightarrow> (Inr document, w)
           | None \<Rightarrow> (let (t, w1) = now w in (Inr (default_progress w1 t), w1))))"

definition save_progress :: "json \<Rightarrow> 'u world \<Rightarrow> (py_exception + unit) \<times> 'u world" where
  "save_progress document w =
     (case write_guard (disk w) (progress_file (disk w)) of
        Inl e \<Rightarrow> (Inl e, w)
      | Inr _ \<Rightarrow> (Inr (), w\<lparr>disk := (disk w)\<lparr>progress_file := Holds document\<rparr>\<rparr>))"

text \<open>\<open>asdict(result)\<close> with the phases replaced by their values.\<close>

definition result_dict :: "CycleResult \<Rightarrow> json" where
  "result_dict r =
     JObject [(''cycle_id'', JStr (cycle_id r)),
              (''duration_seconds'', JNum (duration_seconds r)),
              (''phases_completed'', JList (map (\<lambda>p. JStr (phase_value p)) (phases_completed r))),
              (''success'', JBool (success r)),
              (''output'', JStr (output r)),
              (''learnings'', JList (map JStr (learnings r)))]"

text \<open>
  What \<open>add_cycle_result\<close> raises on a loaded value that is no dict: the test
  \<open>"cycles" not in progress\<close>, the item assignment or the subscript after it raises
  \<open>TypeError\<close>. The message depends on the Python type of the value; the one of a list is
  kept, the others are abbreviated.
\<close>

definition not_a_dict :: "json \<Rightarrow> py_exception" where
  "not_a_dict v =
     (case v of
        JList xs \<Rightarrow> TypeError ''list indices must be integers or slices, not str''
      | _ \<Rightarrow> TypeError ''value is not iterable or takes no item'')"

text \<open>
  \<open>add_cycle_result\<close>. On a dict whose \<open>cycles\<close> entry is no list, \<open>.append\<close> raises
  \<open>AttributeError\<close> (message abbreviated); whenever it raises, nothing is written.
\<close>

definition add_cycle_result :: "CycleResult \<Rightarrow> 'u world \<Rightarrow> (py_exception + unit) \<times> 'u world" where
  "add_cycle_result r w =
     (case load_progress w of
        (Inl e, w1) \<Rightarrow> (Inl e, w1)
      | (Inr progress, w1) \<Rightarrow>
          (case progress of
             JObject entries \<Rightarrow>
               (let entries1 = (if dict_get entries ''cycles'' = None
                                then dict_set ''cycles'' (JList []) entries else entries)
                in case dict_get entries1 ''cycles'' of
                     Some (JList cs) \<Rightarrow>
                       save_progress
                         (JObject (dict_set ''cycles'' (JList (cs @ [result_dict r])) entries1)) w1
                   | _ \<Rightarrow> (Inl (AttributeError ''object has no attribute append''), w1))
           | _ \<Rightarrow> (Inl (not_a_dict progress), w1)))"

text \<open>The cycle list that the progress file holds, if it holds one.\<close>

definition stored_cycles :: "'u world \<Rightarrow> json list" where
  "stored_cycles w =
     (case progress_file (disk w) of
        Holds (JObject entries) \<Rightarrow>
          (case dict_get entries ''cycles'' of Some (JList cs) \<Rightarrow> cs | _ \<Rightarrow> [])
      | _ \<Rightarrow> [])"

text \<open>
  The states of the disk in which \<open>add_cycle_result\<close> returns: the progress file can
  be written, and it is missing, unreadable, not JSON, or holds a dict whose \<open>cycles\<close>
  entry is absent or a list.
\<close>

definition can_append :: "disk \<Rightarrow> bool" where
  "can_append d =
     (\<not> read_only d \<and>
      (case progress_file d of
         Inaccessible \<Rightarrow> False
       | Holds document \<Rightarrow>
           (case document of
              JObject entries \<Rightarrow>
                (case dict_get entries ''cycles'' of
                   None \<Rightarrow> True
                 | Some v \<Rightarrow> (case v of JList cs \<Rightarrow> True | _ \<Rightarrow> False))
            | _ \<Rightarrow> False)
       | _ \<Rightarrow> True))"

section \<open>ClaudeOrchestrator\<close>

record OrchestratorConfig =
  max_iterations :: int
  sleep_between_iterations :: real
  circuit_breaker_failure_threshold :: int
  circuit_breaker_recovery_timeout :: int
  requests_per_minute :: int
  requests_per_hour :: int

record 'r CycleState =
  cycle_id :: string
  start_time :: datetime
  end_time :: "datetime option"
  current_phase :: CyclePhase
  phase_results :: "string \<rightharpoonup> 'r"
  success :: bool
  error_message :: "string option"

text \<open>
  A phase handler gets the phase tag, may read the results of the phases before it, and
  runs in the world (the state directory included); it returns its output or raises.
\<close>

type_synonym ('u, 'r) handler =
  "CyclePhase \<Rightarrow> (string \<rightharpoonup> 'r) \<Rightarrow> 'u world \<Rightarrow> (py_exception + 'r) \<times> 'u world"

record ('u, 'r) ClaudeOrchestrator =
  config :: OrchestratorConfig
  circuit_breaker :: CircuitBreaker
  rate_limiter :: RateLimiter
  current_cycle :: "'r CycleState option"
  cycles_completed :: int
  phase_handlers :: "CyclePhase \<rightharpoonup> ('u, 'r) handler"

text \<open>
  \<open>ClaudeOrchestrator.__init__\<close>, the handler table given (the five built-in handlers are
  simulation stubs, and the tests replace them).
\<close>

definition ClaudeOrchestrator_init ::
  "OrchestratorConfig \<Rightarrow> (CyclePhase \<rightharpoonup> ('u, 'r) handler) \<Rightarrow> 'u world \<Rightarrow>
   ('u, 'r) ClaudeOrchestrator \<times> 'u world"
where
  "ClaudeOrchestrator_init cfg handlers w =
     (let (rl, w1) = RateLimiter_init (requests_per_minute cfg) (requests_per_hour cfg) w
      in (\<lparr>config = cfg,
           circuit_breaker = CircuitBreaker_init (circuit_breaker_failure_threshold cfg)
                                                 (circuit_breaker_recovery_timeout cfg),
           rate_limiter = rl, current_cycle = None, cycles_completed = 0,
           phase_handlers = handlers\<rparr>, w1))"

text \<open>Decimal rendering of an integer, as an f-string gives it.\<close>

fun str_nat :: "nat \<Rightarrow> string" where
  "str_nat n = (if n < 10 then [''0123456789'' ! n]
                else str_nat (n div 10) @ [''0123456789'' ! (n mod 10)])"

declare str_nat.simps [simp del]

definition str_int :: "int \<Rightarrow> string" where
  "str_int i = (if i < 0 then ''-'' @ str_nat (nat (- i)) else str_nat (nat i))"

text \<open>\<open>int(x)\<close> on a float truncates toward zero.\<close>

definition py_int :: "real \<Rightarrow> int" where
  "py_int x = (if 0 \<le> x then \<lfloor>x\<rfloor> else \<lceil>x\<rceil>)"

text \<open>Lines 415 to 419 of \<open>_run_cycle\<close>: the fresh cycle state (\<open>time.time()\<close> reads the clock).\<close>

definition begin_cycle :: "int \<Rightarrow> 'u world \<Rightarrow> 'r CycleState \<times> 'u world" where
  "begin_cycle cycle_num w =
     (let (t, w1) = now w;
          cid = ''cycle_'' @ str_int cycle_num @ ''_'' @ str_int (py_int t);
          (t0, w2) = now w1
      in (\<lparr>cycle_id = cid, start_time = t0, end_time = None, current_phase = DATA_SCAN,
           phase_results = Map.empty, success = False, error_message = None\<rparr>, w2))"

text \<open>
  The loop over the phases (lines 423 to 440), \<open>self.current_cycle\<close> threaded as \<open>cs\<close>.
  A raise leaves the loop with the state as it then is.
\<close>

fun run_phases ::
  "CyclePhase list \<Rightarrow> ('u, 'r) ClaudeOrchestrator \<Rightarrow> 'r CycleState \<Rightarrow> 'u world \<Rightarrow>
   (py_exception + unit) \<times> ('u, 'r) ClaudeOrchestrator \<times> 'r CycleState \<times> 'u world"
where
  "run_phases [] orch cs w = (Inr (), orch, cs, w)"
| "run_phases (phase # phases) orch cs w =
     (if phase = COMPLETE then run_phases phases orch cs w
      else
        (let cs1 = cs\<lparr>current_phase := phase\<rparr>
         in case acquire (rate_limiter orch) w of
              (rl, w1) \<Rightarrow>
                (let orch1 = orch\<lparr>rate_limiter := rl\<rparr>
                 in case phase_handlers orch1 phase of
                      None \<Rightarrow> (Inl (KeyError (phase_repr phase)), orch1, cs1, w1)
                    | Some handler \<Rightarrow>
                        (case handler phase (phase_results cs1) w1 of
                           (Inl e, w2) \<Rightarrow> (Inl e, orch1, cs1, w2)
                         | (Inr out, w2) \<Rightarrow>
                             run_phases phases orch1
                               (cs1\<lparr>phase_results := (phase_results cs1)(phase_value phase \<mapsto> out)\<rparr>)
                               w2))))"

text \<open>
  The \<open>try\<close> block of \<open>_run_cycle\<close>. The completion check \<open>_check_completion_signal\<close> is a
  method that deployments override; it is the parameter \<open>check\<close>, which looks at the
  orchestrator and the world.
\<close>

definition cycle_body ::
  "(('u, 'r) ClaudeOrchestrator \<Rightarrow> 'u world \<Rightarrow> bool) \<Rightarrow> ('u, 'r) ClaudeOrchestrator \<Rightarrow>
   'r CycleState \<Rightarrow> 'u world \<Rightarrow>
   (py_exception + bool) \<times> ('u, 'r) ClaudeOrchestrator \<times> 'r CycleState \<times> 'u world"
where
  "cycle_body check orch cs0 w =
     (case run_phases all_phases orch cs0 w of
        (Inl e, orch1, cs1, w1) \<Rightarrow> (Inl e, orch1, cs1, w1)
      | (Inr _, orch1, cs1, w1) \<Rightarrow>
          (let (t, w2) = now w1;
               cs2 = cs1\<lparr>end_time := Some t, success := True\<rparr>;
               duration = t - start_time cs2;
               result = \<lparr>CycleResult.cycle_id = cycle_id cs2, duration_seconds = duration,
                         phases_completed = butlast all_phases, CycleResult.success = True,
                         output = ''Cycle completed successfully'',
                         learnings = map (\<lambda>p. ''Phase '' @ phase_value p @ '' executed successfully'')
                                         (filter (\<lambda>p. p \<noteq> COMPLETE) all_phases)\<rparr>
           in case add_cycle_result result w2 of
                (Inl e, w3) \<Rightarrow> (Inl e, orch1, cs2, w3)
              | (Inr _, w3) \<Rightarrow>
                  (let orch2 = orch1\<lparr>current_cycle := Some cs2,
                                     cycles_completed := cycles_completed orch1 + 1\<rparr>
                   in (Inr (check orch2 w3), orch2, cs2, w3))))"

text \<open>The \<open>except Exception as e\<close> block of \<open>_run_cycle\<close>; \<open>message e\<close> is \<open>str(e)\<close>.\<close>

definition cycle_failed ::
  "py_exception \<Rightarrow> ('u, 'r) ClaudeOrchestrator \<Rightarrow> 'r CycleState \<Rightarrow> 'u world \<Rightarrow>
   (py_exception + bool) \<times> ('u, 'r) ClaudeOrchestrator \<times> 'r CycleState \<times> 'u world"
where
  "cycle_failed e orch cs w =
     (let (t, w1) = now w;
          cs1 = cs\<lparr>end_time := Some t, success := False, error_message := Some (message e)\<rparr>;
          result = \<lparr>CycleResult.cycle_id = cycle_id cs1, duration_seconds = 0,
                    phases_completed = [], CycleResult.success = False,
                    output = ''Cycle failed: '' @ message e,
                    learnings = [''Error in '' @ phase_value (current_phase cs1) @ '': '' @ message e]\<rparr>
      in case add_cycle_result result w1 of
           (Inl e', w2) \<Rightarrow> (Inl e', orch, cs1, w2)
         | (Inr _, w2) \<Rightarrow> (Inr False, orch, cs1, w2))"

definition run_cycle ::
  "(('u, 'r) ClaudeOrchestrator \<Rightarrow> 'u world \<Rightarrow> bool) \<Rightarrow> int \<Rightarrow> ('u, 'r) ClaudeOrchestrator \<Rightarrow>
   'u world \<Rightarrow> (py_exception + bool) \<times> ('u, 'r) ClaudeOrchestrator \<times> 'u world"
where
  "run_cycle check cycle_num orch w =
     (case begin_cycle cycle_num w of
        (cs0, w1) \<Rightarrow>
          (case cycle_body check (orch\<lparr>current_cycle := Some cs0\<rparr>) cs0 w1 of
             (Inr completed, orch1, cs1, w2) \<Rightarrow>
               (Inr completed, orch1\<lparr>current_cycle := Some cs1\<rparr>, w2)
           | (Inl e, orch1, cs1, w2) \<Rightarrow>
               (case cycle_failed e orch1 cs1 w2 of
                  (r, orch2, cs2, w3) \<Rightarrow> (r, orch2\<lparr>current_cycle := Some cs2\<rparr>, w3))))"

text \<open>The \<open>for\<close> loop of \<open>run\<close> over the cycle numbers still to come.\<close>

fun run_loop ::
  "(('u, 'r) ClaudeOrchestrator \<Rightarrow> 'u world \<Rightarrow> bool) \<Rightarrow> int list \<Rightarrow> ('u, 'r) ClaudeOrchestrator \<Rightarrow>
   'u world \<Rightarrow> (py_exception + bool) \<times> ('u, 'r) ClaudeOrchestrator \<times> 'u world"
where
  "run_loop check [] orch w = (Inr False, orch, w)"
| "run_loop check (i # rest) orch w =
     (case run_cycle check i orch w of
        (Inl e, orch1, w1) \<Rightarrow> (Inl e, orch1, w1)
      | (Inr completed, orch1, w1) \<Rightarrow>
          if completed then (Inr True, orch1, w1)
          else run_loop check rest orch1
                 (asyncio_sleep (sleep_between_iterations (config orch1)) w1))"

text \<open>
  \<open>run\<close>: \<open>max_iterations or self.config.max_iterations\<close> takes the configured value for
  \<open>None\<close> and for 0; \<open>range(1, max_iterations + 1)\<close> is the list \<open>[1..max_iterations]\<close>.
\<close>

definition run ::
  "(('u, 'r) ClaudeOrchestrator \<Rightarrow> 'u world \<Rightarrow> bool) \<Rightarrow> int option \<Rightarrow> string \<Rightarrow>
   ('u, 'r) ClaudeOrchestrator \<Rightarrow> 'u world \<Rightarrow>
   (py_exception + bool) \<times> ('u, 'r) ClaudeOrchestrator \<times> 'u world"
where
  "run check max_iterations_arg current_branch orch w =
     (let limit = (case max_iterations_arg of
                     None \<Rightarrow> max_iterations (config orch)
                   | Some m \<Rightarrow> if m = 0 then max_iterations (config orch) else m)
      in case archive_current_state current_branch w of
           (Inl e, w1) \<Rightarrow> (Inl e, orch, w1)
         | (Inr _, w1) \<Rightarrow>
             (case set_current_branch current_branch w1 of
                (Inl e, w2) \<Rightarrow> (Inl e, orch, w2)
              | (Inr _, w2) \<Rightarrow> run_loop check [1..limit] orch w2))"

section \<open>Sample inputs\<close>

text \<open>
  A world whose clock reads 0, 1, 2, ... seconds and whose state directory is empty, and
  the two pieces of work of \<open>test_orchestrator.py\<close>: \<open>lambda: 1 / 0\<close> and
  \<open>lambda: "success"\<close>.
\<close>

definition empty_disk :: disk where
  "empty_disk = \<lparr>branch_file = Missing, progress_file = Missing, prd_file = Missing,
                 archive_dir = Map.empty, read_only = False\<rparr>"

definition ticking_world :: "unit world" where
  "ticking_world = \<lparr>clock = (\<lambda>n. real n), calendar = (\<lambda>t. ''2026-01-01''),
     isoformat = (\<lambda>t. ''2026-01-01T00:00:00''), slept = [],
                    disk = empty_disk, ext = ()\<rparr>"

definition div_by_zero :: "(unit, string) callable" where
  "div_by_zero = Function (\<lambda>w. (Inl (ZeroDivisionError ''division by zero''), w))"

definition returns_success :: "(unit, string) callable" where
  "returns_success = Function (\<lambda>w. (Inr ''success'', w))"

definition async_work :: "(unit, string) callable" where
  "async_work = CoroutineFunction (\<lambda>w. (Inr ''success'', w))"

text \<open>\<open>CircuitBreaker(failure_threshold=2, recovery_timeout=1)\<close> after failures at 0 s and 1 s.\<close>

definition tripped_breaker :: CircuitBreaker where
  "tripped_breaker = \<lparr>failure_threshold = 2, recovery_timeout = 1, failure_count = 2,
                      last_failure_time = Some 1, state = OPEN\<rparr>"

text \<open>Calls issued back to back: the clock moves by a millisecond from reading to reading.\<close>

definition back_to_back :: "unit world" where
  "back_to_back = \<lparr>clock = (\<lambda>n. real n / 1000), calendar = (\<lambda>t. ''2026-01-01''),
     isoformat = (\<lambda>t. ''2026-01-01T00:00:00''), slept = [],
                   disk = empty_disk, ext = ()\<rparr>"

text \<open>\<open>RateLimiter(requests_per_minute, requests_per_hour=1000)\<close> after n calls of \<open>acquire\<close>.\<close>

definition after_acquires :: "nat \<Rightarrow> int \<Rightarrow> RateLimiter \<times> unit world" where
  "after_acquires n rpm =
     (case RateLimiter_init rpm 1000 back_to_back of
        (rl, w) \<Rightarrow> run_ops (replicate n Acquire) rl w)"

text \<open>
  A state directory left by a run on branch \<open>feature/old\<close> (as in
  \<open>test_archive_on_branch_change\<close>), one whose progress file is not JSON, one whose
  progress file holds the JSON list \<open>[]\<close>, and one whose progress path cannot be examined.
\<close>

definition old_branch_world :: "unit world" where
  "old_branch_world =
     ticking_world\<lparr>disk := empty_disk\<lparr>
       branch_file := Holds (JObject [(''branch'', JStr ''feature/old''),
                                      (''timestamp'', JStr ''2026-01-01T00:00:00'')]),
       progress_file := Holds (JObject [(''test'', JStr ''data'')])\<rparr>\<rparr>"

definition corrupt_world :: "unit world" where
  "corrupt_world = ticking_world\<lparr>disk := empty_disk\<lparr>progress_file := Garbled ''{cycles: [''\<rparr>\<rparr>"

definition list_world :: "unit world" where
  "list_world = ticking_world\<lparr>disk := empty_disk\<lparr>progress_file := Holds (JList [])\<rparr>\<rparr>"

definition locked_world :: "unit world" where
  "locked_world = ticking_world\<lparr>disk := empty_disk\<lparr>progress_file := Inaccessible\<rparr>\<rparr>"

text \<open>
  The configuration \<open>{max_iterations = 2, sleep_between_iterations = 0}\<close>, the other
  fields at their defaults, and handler tables after \<open>test_orchestrator.py\<close>: every handler
  returning, every handler raising, and the third phase raising after two that return.
\<close>

definition two_iterations :: OrchestratorConfig where
  "two_iterations =
     \<lparr>max_iterations = 2, sleep_between_iterations = 0,
      circuit_breaker_failure_threshold = 5, circuit_breaker_recovery_timeout = 60,
      requests_per_minute = 60, requests_per_hour = 1000\<rparr>"

definition mock_handler :: "(unit, string) handler" where
  "mock_handler phase results w = (Inr ''ok'', w)"

definition failing_handler :: "(unit, string) handler" where
  "failing_handler phase results w = (Inl (Exception ''Service unavailable''), w)"

definition third_phase_fails :: "CyclePhase \<rightharpoonup> (unit, string) handler" where
  "third_phase_fails phase =
     (if phase = COMPLETE then None
      else if phase = CODE_EDIT then Some failing_handler
      else Some mock_handler)"

definition all_phases_return :: "CyclePhase \<rightharpoonup> (unit, string) handler" where
  "all_phases_return phase = (if phase = COMPLETE then None else Some mock_handler)"

definition never_complete :: "(unit, string) ClaudeOrchestrator \<Rightarrow> unit world \<Rightarrow> bool" where
  "never_complete orch w = False"

definition complete_after_first :: "(unit, string) ClaudeOrchestrator \<Rightarrow> unit world \<Rightarrow> bool" where
  "complete_after_first orch w = (cycles_completed orch \<ge> 1)"

text \<open>\<open>ClaudeOrchestrator(config)\<close> with a handler table, built in the ticking world.\<close>

definition fresh_orchestrator ::
  "(CyclePhase \<rightharpoonup> (unit, string) handler) \<Rightarrow> (unit, string) ClaudeOrchestrator \<times> unit world"
where
  "fresh_orchestrator handlers = ClaudeOrchestrator_init two_iterations handlers ticking_world"


section \<open>Properties of the circuit breaker\<close>

lemma now_simps [simp]:
  "fst (now w) = clock w 0"
  "clock (snd (now w)) n = clock w (Suc n)"
  "slept (snd (now w)) = slept w"
  "disk (snd (now w)) = disk w"
  "ext (snd (now w)) = ext w"
  "calendar (snd (now w)) = calendar w"
  by (simp_all add: now_def)

lemma on_failure_simps:
  "failure_count (fst (on_failure cb w)) = failure_count cb + 1"
  "failure_threshold (fst (on_failure cb w)) = failure_threshold cb"
  "recovery_timeout (fst (on_failure cb w)) = recovery_timeout cb"
  "last_failure_time (fst (on_failure cb w)) = Some (clock w 0)"
  "state (fst (on_failure cb w)) =
     (if failure_threshold cb \<le> failure_count cb + 1 then OPEN else state cb)"
  "snd (on_failure cb w) = snd (now w)"
  by (simp_all add: on_failure_def Let_def now_def)

lemma gate_not_open: "state cb \<noteq> OPEN \<Longrightarrow> gate cb w = (Inr cb, w)"
  by (simp add: gate_def)

lemma gate_open_early:
  "state cb = OPEN \<Longrightarrow> last_failure_time cb = Some t0 \<Longrightarrow>
   clock w 0 - t0 < real_of_int (recovery_timeout cb) \<Longrightarrow>
   gate cb w = (Inl breaker_open_error, snd (now w))"
  by (simp add: gate_def should_attempt_reset_def now_def)

lemma gate_open_late:
  "state cb = OPEN \<Longrightarrow> last_failure_time cb = Some t0 \<Longrightarrow>
   real_of_int (recovery_timeout cb) \<le> clock w 0 - t0 \<Longrightarrow>
   gate cb w = (Inr (cb\<lparr>state := HALF_OPEN\<rparr>), snd (now w))"
  by (simp add: gate_def should_attempt_reset_def now_def)

lemma call_blocked:
  "gate cb w = (Inl e, w1) \<Longrightarrow> call cb func w = (Inl e, cb, w1)"
  by (simp add: call_def)

lemma call_through_return:
  "gate cb w = (Inr cb1, w1) \<Longrightarrow> f w1 = (Inr r, w2) \<Longrightarrow>
   call cb (Function f) w = (Inr r, on_success cb1, w2)"
  by (simp add: call_def)

lemma call_through_raise:
  "gate cb w = (Inr cb1, w1) \<Longrightarrow> f w1 = (Inl e, w2) \<Longrightarrow>
   call cb (Function f) w = (Inl e, fst (on_failure cb1 w2), snd (now w2))"
  by (simp add: call_def on_failure_def Let_def now_def)

lemma call_through_coroutine:
  "gate cb w = (Inr cb1, w1) \<Longrightarrow>
   call cb (CoroutineFunction g) w =
     (Inl async_unsupported_error, fst (on_failure cb1 w1), snd (now w1))"
  by (simp add: call_def on_failure_def Let_def now_def)

text \<open>A call that gets past the gate ends in \<open>_on_success\<close> or in \<open>_on_failure\<close>.\<close>

lemma call_through_cases:
  fixes w :: "'u world" and func :: "('u, 'a) callable"
  assumes "gate cb w = (Inr cb1, w1)" and "call cb func w = (r, cb', w')"
  shows "(\<not> isl r \<and> cb' = on_success cb1)
       \<or> (isl r \<and> (\<exists>w2 :: 'u world. cb' = fst (on_failure cb1 w2)))"
proof (cases func)
  case (Function f)
  obtain r2 w2 where fw: "f w1 = (r2, w2)" by (cases "f w1")
  show ?thesis
  proof (cases r2)
    case (Inl e)
    with fw Function assms call_through_raise [of cb w cb1 w1 f e w2] show ?thesis by auto
  next
    case (Inr v)
    with fw Function assms call_through_return [of cb w cb1 w1 f v w2] show ?thesis by auto
  qed
next
  case (CoroutineFunction g)
  with assms call_through_coroutine [of cb w cb1 w1 g] show ?thesis by auto
qed

lemma calls_append:
  "calls cb xs w = (rs, cb1, w1) \<Longrightarrow> calls cb1 ys w1 = (rs', cb2, w2) \<Longrightarrow>
   calls cb (xs @ ys) w = (rs @ rs', cb2, w2)"
  by (induction xs arbitrary: cb w rs) (auto split: prod.splits)

lemma calls_length: "calls cb funcs w = (rs, cb', w') \<Longrightarrow> length rs = length funcs"
  by (induction funcs arbitrary: cb w rs) (auto split: prod.splits)

lemma call_preserves_inv:
  fixes w :: "'u world"
  assumes "breaker_inv cb" and "call cb func w = (r, cb', w')"
  shows "breaker_inv cb'"
proof (cases "gate cb w")
  case (Pair g w1)
  show ?thesis
  proof (cases g)
    case (Inl e)
    with Pair assms call_blocked [of cb w e w1 func] show ?thesis by simp
  next
    case (Inr cb1)
    have cb1: "failure_threshold cb1 = failure_threshold cb" "failure_count cb1 = failure_count cb"
      "state cb1 = HALF_OPEN \<longrightarrow> failure_threshold cb \<le> failure_count cb"
      "state cb1 \<noteq> OPEN"
      using Pair Inr assms(1)
      by (auto simp: gate_def breaker_inv_def Let_def split: if_splits prod.splits)
    from call_through_cases [of cb w cb1 w1 func r cb' w'] Pair Inr assms(2)
    consider "cb' = on_success cb1" | w2 :: "'u world" where "cb' = fst (on_failure cb1 w2)"
      by blast
    then show ?thesis
    proof cases
      case 1
      then show ?thesis by (simp add: breaker_inv_def on_success_def)
    next
      case 2
      with cb1 show ?thesis
        by (cases "state cb1") (auto simp: breaker_inv_def on_failure_simps)
    qed
  qed
qed

lemma init_inv: "breaker_inv (CircuitBreaker_init k t)"
  by (simp add: breaker_inv_def CircuitBreaker_init_def)

text \<open>
  With a positive threshold, a breaker that \<open>call\<close> leaves CLOSED has counted fewer
  failures than the threshold.
\<close>

lemma call_closed_below_threshold:
  fixes w :: "'u world"
  assumes "0 < failure_threshold cb" and "0 \<le> failure_count cb"
    and "call cb func w = (r, cb', w')"
  shows "0 < failure_threshold cb' \<and> 0 \<le> failure_count cb'
       \<and> (state cb' = CLOSED \<longrightarrow> failure_count cb' < failure_threshold cb')"
proof (cases "gate cb w")
  case (Pair g w1)
  show ?thesis
  proof (cases g)
    case (Inl e)
    with Pair have o: "state cb = OPEN" by (auto simp: gate_def split: if_splits)
    from Pair Inl assms call_blocked [of cb w e w1 func] o show ?thesis by simp
  next
    case (Inr cb1)
    with Pair have cb1: "failure_threshold cb1 = failure_threshold cb"
      "failure_count cb1 = failure_count cb" "state cb1 \<noteq> OPEN"
      by (auto simp: gate_def Let_def split: if_splits prod.splits)
    from call_through_cases [of cb w cb1 w1 func r cb' w'] Pair Inr assms(3)
    consider "cb' = on_success cb1" | w2 :: "'u world" where "cb' = fst (on_failure cb1 w2)"
      by blast
    then show ?thesis
    proof cases
      case 1
      with cb1 assms(1) show ?thesis by (simp add: on_success_def)
    next
      case 2
      with cb1 assms(1,2) show ?thesis by (simp add: on_failure_simps)
    qed
  qed
qed


lemma failing_call:
  fixes w :: "'u world" and func :: "('u, 'a) callable"
  assumes "raising func \<or> is_coroutine func" and "state cb \<noteq> OPEN"
    and "call cb func w = (r, cb', w')"
  shows "isl r \<and> (\<exists>w2 :: 'u world. cb' = fst (on_failure cb w2))"
proof (cases func)
  case (Function f)
  obtain r2 w2 where fw: "f w = (r2, w2)" by (cases "f w")
  with assms(1) Function obtain e where "r2 = Inl e"
    by (cases r2) (auto simp: raising_def is_coroutine_def dest: spec [of _ w])
  with fw Function assms(2,3) show ?thesis
    using call_through_raise [of cb w cb w f e w2] by (auto simp: gate_not_open)
next
  case (CoroutineFunction g)
  with assms(2,3) show ?thesis
    using call_through_coroutine [of cb w cb w g] by (auto simp: gate_not_open)
qed

lemma calls_failing_stay_closed:
  fixes w :: "'u world" and funcs :: "('u, 'a) callable list"
  shows "state cb = CLOSED \<Longrightarrow> \<forall>func \<in> set funcs. raising func \<or> is_coroutine func \<Longrightarrow>
   failure_count cb + int (length funcs) < failure_threshold cb \<Longrightarrow>
   calls cb funcs w = (rs, cb', w') \<Longrightarrow>
   state cb' = CLOSED
   \<and> failure_count cb' = failure_count cb + int (length funcs)
   \<and> failure_threshold cb' = failure_threshold cb
   \<and> recovery_timeout cb' = recovery_timeout cb"
proof (induction funcs arbitrary: cb w rs)
  case Nil
  then show ?case by simp
next
  case (Cons func funcs)
  obtain r cb1 w1 where c: "call cb func w = (r, cb1, w1)" by (cases "call cb func w")
  obtain rs1 where c1: "calls cb1 funcs w1 = (rs1, cb', w')"
    using Cons.prems(4) c by (auto split: prod.splits)
  from Cons.prems(1,2) obtain w2 :: "'u world" where "cb1 = fst (on_failure cb w2)"
    using failing_call [of func cb w r cb1 w1] c by auto
  with Cons.prems have "state cb1 = CLOSED" "failure_count cb1 = failure_count cb + 1"
    "failure_threshold cb1 = failure_threshold cb" "recovery_timeout cb1 = recovery_timeout cb"
    by (simp_all add: on_failure_simps)
  with Cons.IH [of cb1 w1 rs1] Cons.prems c1 show ?case by simp
qed

text \<open>From a fresh count, the k-th failure in a row is the one that opens the breaker.\<close>

lemma calls_failing_open:
  fixes w :: "'u world" and funcs :: "('u, 'a) callable list"
  assumes "state cb = CLOSED" and "failure_count cb = 0"
    and "failure_threshold cb = int k" and "0 < k"
    and "length funcs = k" and "\<forall>func \<in> set funcs. raising func \<or> is_coroutine func"
    and "calls cb funcs w = (rs, cb', w')"
  shows "state cb' = OPEN \<and> failure_count cb' = int k \<and> last_failure_time cb' \<noteq> None
       \<and> recovery_timeout cb' = recovery_timeout cb"
proof -
  from assms(4,5) obtain init func where split: "funcs = init @ [func]"
    by (metis length_greater_0_conv rev_exhaust)
  obtain rs1 cb1 w1 where c1: "calls cb init w = (rs1, cb1, w1)" by (cases "calls cb init w")
  obtain r cb2 w2 where c2: "call cb1 func w1 = (r, cb2, w2)" by (cases "call cb1 func w1")
  from c2 have "calls cb1 [func] w1 = ([r], cb2, w2)" by simp
  from calls_append [OF c1 this] assms(7) split have cb': "cb' = cb2" by simp
  have "failure_count cb + int (length init) < failure_threshold cb"
    using assms(2,3,5) split by simp
  with calls_failing_stay_closed [of cb init w rs1 cb1 w1] assms(1,6) c1 split
  have cb1: "state cb1 = CLOSED" "failure_count cb1 = failure_count cb + int (length init)"
    "failure_threshold cb1 = failure_threshold cb" "recovery_timeout cb1 = recovery_timeout cb"
    by simp_all
  from assms(6) split have "raising func \<or> is_coroutine func" by simp
  with failing_call [of func cb1 w1 r cb2 w2] cb1(1) c2
  obtain w3 :: "'u world" where "cb2 = fst (on_failure cb1 w3)" by auto
  with cb' cb1 assms(2,3,5) split show ?thesis
    by (simp add: on_failure_simps)
qed

lemma sample_trip:
  "calls (CircuitBreaker_init 2 1) [div_by_zero, div_by_zero] ticking_world
     = ([Inl (ZeroDivisionError ''division by zero''), Inl (ZeroDivisionError ''division by zero'')],
        tripped_breaker, ticking_world\<lparr>clock := (\<lambda>n. real (Suc (Suc n)))\<rparr>)"
  by (simp add: call_def gate_def on_failure_def now_def CircuitBreaker_init_def
      div_by_zero_def ticking_world_def tripped_breaker_def Let_def)

subsection \<open>Opening at the threshold\<close>

lemma gate_open_cases:
  "state cb = OPEN \<Longrightarrow>
   (\<exists>w1. gate cb w = (Inl breaker_open_error, w1))
   \<or> (\<exists>w1. gate cb w = (Inr (cb\<lparr>state := HALF_OPEN\<rparr>), w1))"
  by (auto simp: gate_def Let_def split: prod.splits)

lemma failing_call_through:
  fixes w :: "'u world" and func :: "('u, 'a) callable"
  assumes "raising func \<or> is_coroutine func" and "gate cb w = (Inr cb1, w1)"
    and "call cb func w = (r, cb', w')"
  shows "isl r \<and> (\<exists>w2 :: 'u world. cb' = fst (on_failure cb1 w2))"
proof (cases func)
  case (Function f)
  obtain r2 w2 where fw: "f w1 = (r2, w2)" by (cases "f w1")
  from assms(1) Function have "isl (fst (f w1))" by (simp add: raising_def is_coroutine_def)
  with fw obtain e where "r2 = Inl e" by (cases r2) auto
  with fw Function assms(3) call_through_raise [OF assms(2), of f e w2] show ?thesis by auto
next
  case (CoroutineFunction g)
  with assms(3) call_through_coroutine [OF assms(2), of g] show ?thesis by auto
qed

text \<open>
  Failing calls drive the breaker to OPEN and keep it there: once enough of them are
  left to reach the threshold, the breaker ends OPEN.
\<close>

lemma calls_failing_end_open:
  fixes w :: "'u world" and funcs :: "('u, 'a) callable list"
  shows "\<forall>func \<in> set funcs. raising func \<or> is_coroutine func \<Longrightarrow>
    (state cb = OPEN \<and> failure_threshold cb \<le> failure_count cb \<and> last_failure_time cb \<noteq> None)
    \<or> (state cb = CLOSED \<and> failure_count cb < failure_threshold cb
        \<and> failure_threshold cb \<le> failure_count cb + int (length funcs)) \<Longrightarrow>
    calls cb funcs w = (rs, cb', w') \<Longrightarrow>
    state cb' = OPEN \<and> failure_threshold cb' \<le> failure_count cb'
    \<and> last_failure_time cb' \<noteq> None \<and> failure_threshold cb' = failure_threshold cb
    \<and> recovery_timeout cb' = recovery_timeout cb"
proof (induction funcs arbitrary: cb w rs)
  case Nil
  then show ?case by auto
next
  case (Cons func funcs)
  obtain r cb1 w1 where c: "call cb func w = (r, cb1, w1)" by (cases "call cb func w")
  with Cons.prems(3) obtain rs1 where c1: "calls cb1 funcs w1 = (rs1, cb', w')"
    by (auto split: prod.splits)
  from Cons.prems(1) have f: "raising func \<or> is_coroutine func"
    and fs: "\<forall>func \<in> set funcs. raising func \<or> is_coroutine func"
    by simp_all
  have step: "((state cb1 = OPEN \<and> failure_threshold cb1 \<le> failure_count cb1
                 \<and> last_failure_time cb1 \<noteq> None)
              \<or> (state cb1 = CLOSED \<and> failure_count cb1 < failure_threshold cb1
                  \<and> failure_threshold cb1 \<le> failure_count cb1 + int (length funcs)))
            \<and> failure_threshold cb1 = failure_threshold cb
            \<and> recovery_timeout cb1 = recovery_timeout cb"
  proof (cases "state cb = OPEN")
    case True
    with Cons.prems(2) have o: "failure_threshold cb \<le> failure_count cb"
      "last_failure_time cb \<noteq> None" by auto
    from gate_open_cases [OF True, of w] show ?thesis
    proof (elim disjE exE)
      fix w0 assume "gate cb w = (Inl breaker_open_error, w0)"
      from call_blocked [OF this, of func] c True o show ?thesis by simp
    next
      fix w0 assume g: "gate cb w = (Inr (cb\<lparr>state := HALF_OPEN\<rparr>), w0)"
      from failing_call_through [OF f g c]
      obtain w2 :: "'u world" where "cb1 = fst (on_failure (cb\<lparr>state := HALF_OPEN\<rparr>) w2)" by blast
      with o show ?thesis by (simp add: on_failure_simps)
    qed
  next
    case False
    with Cons.prems(2) have cl: "state cb = CLOSED" "failure_count cb < failure_threshold cb"
      "failure_threshold cb \<le> failure_count cb + int (length (func # funcs))" by auto
    from False have "gate cb w = (Inr cb, w)" by (rule gate_not_open)
    from failing_call_through [OF f this c]
    obtain w2 :: "'u world" where "cb1 = fst (on_failure cb w2)" by blast
    with cl show ?thesis by (auto simp: on_failure_simps)
  qed
  from step have inv1: "(state cb1 = OPEN \<and> failure_threshold cb1 \<le> failure_count cb1
                 \<and> last_failure_time cb1 \<noteq> None)
              \<or> (state cb1 = CLOSED \<and> failure_count cb1 < failure_threshold cb1
                  \<and> failure_threshold cb1 \<le> failure_count cb1 + int (length funcs))"
    and eqs: "failure_threshold cb1 = failure_threshold cb" "recovery_timeout cb1 = recovery_timeout cb"
    by blast+
  from Cons.IH [OF fs inv1 c1] eqs show ?case by simp
qed

text \<open>
  C1. Take a CLOSED breaker with threshold k whose failure count c is as \<open>call\<close> leaves it
  on a closed breaker, 0 \<le> c < k. After k calls in a row whose work raises, the breaker is
  OPEN. The next call, if the clock then reads less than the recovery timeout past the last
  failure, raises the breaker-open error whatever its work is; the world has lost one clock
  reading and is otherwise untouched. From a fresh count (c = 0) the breaker is CLOSED
  through the first k - 1 of the calls and has counted exactly k failures after the k-th.
\<close>

theorem breaker_opens_after_threshold:
  fixes w :: "'u world" and funcs :: "('u, 'a) callable list"
  assumes "state cb = CLOSED"
    and "0 \<le> failure_count cb" and "failure_count cb < failure_threshold cb"
    and "length funcs = nat (failure_threshold cb)" and "\<forall>func \<in> set funcs. raising func"
    and "calls cb funcs w = (rs, cb', w')"
  shows "state cb' = OPEN
       \<and> (\<exists>t0. last_failure_time cb' = Some t0
             \<and> (clock w' 0 - t0 < real_of_int (recovery_timeout cb') \<longrightarrow>
                  (\<forall>extra :: ('u, 'a) callable.
                     call cb' extra w' = (Inl breaker_open_error, cb', snd (now w')))))
       \<and> (failure_count cb = 0 \<longrightarrow>
             failure_count cb' = failure_threshold cb
           \<and> (\<forall>j < length funcs. \<forall>rs1 cb1 w1.
                 calls cb (take j funcs) w = (rs1, cb1, w1) \<longrightarrow> state cb1 = CLOSED))"
proof -
  have all: "\<forall>func \<in> set funcs. raising func \<or> is_coroutine func"
    using assms(5) by blast
  have "failure_threshold cb \<le> failure_count cb + int (length funcs)"
    using assms(2,3,4) by simp
  with calls_failing_end_open [OF all _ assms(6)] assms(1,3)
  have opened: "state cb' = OPEN" "last_failure_time cb' \<noteq> None" by simp_all
  then obtain t0 where t0: "last_failure_time cb' = Some t0" by auto
  have blocked: "call cb' extra w' = (Inl breaker_open_error, cb', snd (now w'))"
    if "clock w' 0 - t0 < real_of_int (recovery_timeout cb')" for extra :: "('u, 'a) callable"
    using gate_open_early [OF opened(1) t0 that] by (rule call_blocked)
  have fresh: "failure_count cb' = failure_threshold cb
           \<and> (\<forall>j < length funcs. \<forall>rs1 cb1 w1.
                 calls cb (take j funcs) w = (rs1, cb1, w1) \<longrightarrow> state cb1 = CLOSED)"
    if zero: "failure_count cb = 0"
  proof -
    from assms(3,4) zero have k: "failure_threshold cb = int (length funcs)" "0 < length funcs"
      by simp_all
    have "state cb1 = CLOSED"
      if "j < length funcs" and "calls cb (take j funcs) w = (rs1, cb1, w1)" for j rs1 cb1 w1
      using calls_failing_stay_closed [of cb "take j funcs" w rs1 cb1 w1] assms(1) zero k all that
      by (auto dest: in_set_takeD)
    moreover from calls_failing_open [OF assms(1) zero k(1) k(2) refl all assms(6)]
    have "failure_count cb' = failure_threshold cb" using k(1) by simp
    ultimately show ?thesis by blast
  qed
  from opened(1) t0 blocked fresh show ?thesis by blast
qed

theorem breaker_opens_after_threshold_witness:
  "state (fst (snd (calls (CircuitBreaker_init 2 60) [div_by_zero, div_by_zero] ticking_world))) = OPEN
   \<and> failure_count (fst (snd (calls (CircuitBreaker_init 2 60) [div_by_zero, div_by_zero] ticking_world))) = 2
   \<and> fst (call (fst (snd (calls (CircuitBreaker_init 2 60) [div_by_zero, div_by_zero] ticking_world)))
              returns_success
              (snd (snd (calls (CircuitBreaker_init 2 60) [div_by_zero, div_by_zero] ticking_world))))
       = Inl breaker_open_error"
proof -
  let ?cb = "CircuitBreaker_init 2 60"
  let ?fs = "[div_by_zero, div_by_zero]"
  obtain rs cb' w' where c: "calls ?cb ?fs ticking_world = (rs, cb', w')"
    by (cases "calls ?cb ?fs ticking_world")
  then have vals: "last_failure_time cb' = Some 1" "clock w' 0 = 2" "recovery_timeout cb' = 60"
    by (auto simp: call_def gate_def on_failure_def now_def CircuitBreaker_init_def
        div_by_zero_def ticking_world_def Let_def)
  have "state ?cb = CLOSED" "0 \<le> failure_count ?cb" "failure_count ?cb < failure_threshold ?cb"
    "length ?fs = nat (failure_threshold ?cb)" "\<forall>func \<in> set ?fs. raising func"
    by (simp_all add: CircuitBreaker_init_def raising_def div_by_zero_def)
  from breaker_opens_after_threshold [OF this c] vals c show ?thesis
    by (auto simp: CircuitBreaker_init_def)
qed

subsection \<open>Recovery\<close>

text \<open>
  C3. Take a breaker that is OPEN as \<open>call\<close> leaves it (the invariant), its last failure
  stamped t0. A call whose clock reading is less than the recovery timeout past t0 raises
  the breaker-open error for any work, leaving breaker and world as they were (one clock
  reading apart). A call whose reading is at or past t0 plus the timeout passes the gate in
  state HALF_OPEN and runs its work on the world after that reading; a normal return
  leaves the breaker CLOSED with failure count 0, a raise leaves it OPEN.
\<close>

theorem breaker_recovery:
  fixes w :: "'u world"
  assumes "breaker_inv cb" and "state cb = OPEN" and "last_failure_time cb = Some t0"
  shows "(clock w 0 - t0 < real_of_int (recovery_timeout cb) \<longrightarrow>
            (\<forall>func :: ('u, 'a) callable.
               call cb func w = (Inl breaker_open_error, cb, snd (now w))))
       \<and> (real_of_int (recovery_timeout cb) \<le> clock w 0 - t0 \<longrightarrow>
            gate cb w = (Inr (cb\<lparr>state := HALF_OPEN\<rparr>), snd (now w))
            \<and> (\<forall>(f :: 'u world \<Rightarrow> (py_exception + 'a) \<times> 'u world) v w2.
                 f (snd (now w)) = (Inr v, w2) \<longrightarrow>
                 call cb (Function f) w = (Inr v, cb\<lparr>failure_count := 0, state := CLOSED\<rparr>, w2))
            \<and> (\<forall>(f :: 'u world \<Rightarrow> (py_exception + 'a) \<times> 'u world) e w2.
                 f (snd (now w)) = (Inl e, w2) \<longrightarrow>
                 (\<exists>cb'. call cb (Function f) w = (Inl e, cb', snd (now w2)) \<and> state cb' = OPEN))
            \<and> (\<forall>(func :: ('u, 'a) callable) r cb' w'.
                 call cb func w = (r, cb', w') \<longrightarrow>
                 (if isl r then state cb' = OPEN
                  else state cb' = CLOSED \<and> failure_count cb' = 0)))"
proof (intro conjI impI allI)
  fix func :: "('u, 'a) callable"
  assume "clock w 0 - t0 < real_of_int (recovery_timeout cb)"
  from gate_open_early [OF assms(2,3) this]
  show "call cb func w = (Inl breaker_open_error, cb, snd (now w))" by (rule call_blocked)
next
  assume late: "real_of_int (recovery_timeout cb) \<le> clock w 0 - t0"
  from gate_open_late [OF assms(2,3) late]
  show "gate cb w = (Inr (cb\<lparr>state := HALF_OPEN\<rparr>), snd (now w))" .
next
  fix f :: "'u world \<Rightarrow> (py_exception + 'a) \<times> 'u world" and v w2
  assume late: "real_of_int (recovery_timeout cb) \<le> clock w 0 - t0"
    and ret: "f (snd (now w)) = (Inr v, w2)"
  from gate_open_late [OF assms(2,3) late] ret
  show "call cb (Function f) w = (Inr v, cb\<lparr>failure_count := 0, state := CLOSED\<rparr>, w2)"
    by (simp add: call_through_return on_success_def)
next
  fix f :: "'u world \<Rightarrow> (py_exception + 'a) \<times> 'u world" and e w2
  assume late: "real_of_int (recovery_timeout cb) \<le> clock w 0 - t0"
    and exn: "f (snd (now w)) = (Inl e, w2)"
  from assms(1,2) have "failure_threshold cb \<le> failure_count cb"
    by (simp add: breaker_inv_def)
  then have "state (fst (on_failure (cb\<lparr>state := HALF_OPEN\<rparr>) w2)) = OPEN"
    by (simp add: on_failure_simps)
  with gate_open_late [OF assms(2,3) late] exn
  show "\<exists>cb'. call cb (Function f) w = (Inl e, cb', snd (now w2)) \<and> state cb' = OPEN"
    by (simp add: call_through_raise)
next
  fix func :: "('u, 'a) callable" and r cb' w'
  assume late: "real_of_int (recovery_timeout cb) \<le> clock w 0 - t0"
    and c: "call cb func w = (r, cb', w')"
  from assms(1,2) have thr: "failure_threshold cb \<le> failure_count cb"
    by (simp add: breaker_inv_def)
  from call_through_cases [of cb w _ _ func r cb' w'] gate_open_late [OF assms(2,3) late] c
  show "if isl r then state cb' = OPEN else state cb' = CLOSED \<and> failure_count cb' = 0"
    using thr by (auto simp: on_success_def on_failure_simps)
qed

theorem breaker_recovery_witness:
  "call tripped_breaker div_by_zero (ticking_world\<lparr>clock := (\<lambda>n. 3 / 2)\<rparr>)
     = (Inl breaker_open_error, tripped_breaker, snd (now (ticking_world\<lparr>clock := (\<lambda>n. 3 / 2)\<rparr>)))
   \<and> call tripped_breaker returns_success (ticking_world\<lparr>clock := (\<lambda>n. 2)\<rparr>)
     = (Inr ''success'', tripped_breaker\<lparr>failure_count := 0, state := CLOSED\<rparr>,
        snd (now (ticking_world\<lparr>clock := (\<lambda>n. 2)\<rparr>)))
   \<and> state (fst (snd (call tripped_breaker div_by_zero (ticking_world\<lparr>clock := (\<lambda>n. 2)\<rparr>)))) = OPEN"
proof -
  have inv: "breaker_inv tripped_breaker" "state tripped_breaker = OPEN"
    "last_failure_time tripped_breaker = Some 1"
    by (simp_all add: breaker_inv_def tripped_breaker_def)
  let ?early = "ticking_world\<lparr>clock := (\<lambda>n. 3 / 2)\<rparr>"
  let ?late = "ticking_world\<lparr>clock := (\<lambda>n. 2)\<rparr>"
  have early: "clock ?early 0 - 1 < real_of_int (recovery_timeout tripped_breaker)"
    and late: "real_of_int (recovery_timeout tripped_breaker) \<le> clock ?late 0 - 1"
    by (simp_all add: tripped_breaker_def)
  note e = breaker_recovery [OF inv, of ?early, where 'a = string]
  note l = breaker_recovery [OF inv, of ?late, where 'a = string]
  note e1 = e [THEN conjunct1, THEN mp, OF early]
  note l1 = l [THEN conjunct2, THEN mp, OF late]
  from e1 have 1: "call tripped_breaker div_by_zero ?early
     = (Inl breaker_open_error, tripped_breaker, snd (now ?early))" by blast
  have "call tripped_breaker (Function (\<lambda>w. (Inr ''success'', w))) ?late
     = (Inr ''success'', tripped_breaker\<lparr>failure_count := 0, state := CLOSED\<rparr>, snd (now ?late))"
    by (rule l1 [THEN conjunct2, THEN conjunct1, rule_format]) simp
  then have 2: "call tripped_breaker returns_success ?late
     = (Inr ''success'', tripped_breaker\<lparr>failure_count := 0, state := CLOSED\<rparr>, snd (now ?late))"
    by (simp add: returns_success_def)
  obtain r cb' w' where c: "call tripped_breaker div_by_zero ?late = (r, cb', w')"
    by (cases "call tripped_breaker div_by_zero ?late")
  then have r: "isl r"
    by (auto simp: call_def gate_def should_attempt_reset_def now_def on_failure_def Let_def
        tripped_breaker_def div_by_zero_def)
  from l1 [THEN conjunct2, THEN conjunct2, THEN conjunct2, rule_format, OF c] r
  have "state cb' = OPEN" by simp
  with c have 3: "state (fst (snd (call tripped_breaker div_by_zero ?late))) = OPEN"
    by simp
  from 1 2 3 show ?thesis by blast
qed



subsection \<open>Failing fast\<close>

lemma calls_blocked:
  fixes w :: "'u world" and funcs :: "('u, 'a) callable list"
  shows "state cb = OPEN \<Longrightarrow> last_failure_time cb = Some t0 \<Longrightarrow>
    \<forall>i < length funcs. clock w i - t0 < real_of_int (recovery_timeout cb) \<Longrightarrow>
    calls cb funcs w
      = (replicate (length funcs) (Inl breaker_open_error), cb,
         w\<lparr>clock := (\<lambda>n. clock w (length funcs + n))\<rparr>)"
proof (induction funcs arbitrary: w)
  case Nil
  then show ?case by simp
next
  case (Cons func funcs)
  from Cons.prems(3) have "clock w 0 - t0 < real_of_int (recovery_timeout cb)" by auto
  from gate_open_early [OF Cons.prems(1,2) this]
  have c: "call cb func w = (Inl breaker_open_error, cb, snd (now w))" by (rule call_blocked)
  have "\<forall>i < length funcs. clock (snd (now w)) i - t0 < real_of_int (recovery_timeout cb)"
    using Cons.prems(3) by auto
  from Cons.IH [OF Cons.prems(1,2) this] c show ?case
    by (simp add: now_def)
qed

text \<open>
  C9. While the breaker is OPEN and every call is attempted at a clock reading less than
  the recovery timeout past the last recorded failure t0, each call raises the breaker-open
  error and the breaker is left exactly as it was: same failure count, same last failure
  time. The world only loses the clock readings the checks consumed. After any number of
  such calls the gate still lets a call through exactly when its reading is at least the
  timeout past t0.
\<close>

theorem fast_fail_keeps_bookkeeping:
  fixes w :: "'u world" and funcs :: "('u, 'a) callable list"
  assumes "state cb = OPEN" and "last_failure_time cb = Some t0"
    and "\<forall>i < length funcs. clock w i - t0 < real_of_int (recovery_timeout cb)"
    and "calls cb funcs w = (rs, cb', w')"
  shows "rs = replicate (length funcs) (Inl breaker_open_error)
       \<and> cb' = cb
       \<and> failure_count cb' = failure_count cb
       \<and> last_failure_time cb' = Some t0
       \<and> w' = w\<lparr>clock := (\<lambda>n. clock w (length funcs + n))\<rparr>
       \<and> (isl (fst (gate cb' w')) \<longleftrightarrow>
            clock w (length funcs) - t0 < real_of_int (recovery_timeout cb))
       \<and> (real_of_int (recovery_timeout cb) \<le> clock w (length funcs) - t0 \<longrightarrow>
            gate cb' w' = (Inr (cb\<lparr>state := HALF_OPEN\<rparr>), snd (now w')))"
proof -
  from calls_blocked [OF assms(1-3)] assms(4)
  have eq: "rs = replicate (length funcs) (Inl breaker_open_error)" "cb' = cb"
    "w' = w\<lparr>clock := (\<lambda>n. clock w (length funcs + n))\<rparr>"
    by simp_all
  then have rd: "clock w' 0 = clock w (length funcs)" by simp
  have "isl (fst (gate cb w')) \<longleftrightarrow> clock w' 0 - t0 < real_of_int (recovery_timeout cb)"
  proof (cases "clock w' 0 - t0 < real_of_int (recovery_timeout cb)")
    case True
    from gate_open_early [OF assms(1,2) this] True show ?thesis by simp
  next
    case False
    then have "real_of_int (recovery_timeout cb) \<le> clock w' 0 - t0" by simp
    from gate_open_late [OF assms(1,2) this] False show ?thesis by simp
  qed
  moreover have "gate cb w' = (Inr (cb\<lparr>state := HALF_OPEN\<rparr>), snd (now w'))"
    if "real_of_int (recovery_timeout cb) \<le> clock w' 0 - t0"
    using gate_open_late [OF assms(1,2) that] .
  ultimately show ?thesis using eq rd assms(2) by simp
qed

theorem fast_fail_keeps_bookkeeping_witness:
  "fst (calls tripped_breaker [returns_success, div_by_zero, async_work]
          (ticking_world\<lparr>clock := (\<lambda>n. if n < 3 then 1 + real n / 4 else 2)\<rparr>))
     = [Inl breaker_open_error, Inl breaker_open_error, Inl breaker_open_error]
   \<and> fst (snd (calls tripped_breaker [returns_success, div_by_zero, async_work]
          (ticking_world\<lparr>clock := (\<lambda>n. if n < 3 then 1 + real n / 4 else 2)\<rparr>)))
     = tripped_breaker
   \<and> fst (gate tripped_breaker
          (snd (snd (calls tripped_breaker [returns_success, div_by_zero, async_work]
             (ticking_world\<lparr>clock := (\<lambda>n. if n < 3 then 1 + real n / 4 else 2)\<rparr>)))))
     = Inr (tripped_breaker\<lparr>state := HALF_OPEN\<rparr>)"
proof -
  let ?w = "ticking_world\<lparr>clock := (\<lambda>n. if n < 3 then 1 + real n / 4 else 2)\<rparr>"
  let ?fs = "[returns_success, div_by_zero, async_work]"
  have h: "state tripped_breaker = OPEN" "last_failure_time tripped_breaker = Some 1"
    by (simp_all add: tripped_breaker_def)
  have early: "\<forall>i < length ?fs. clock ?w i - 1 < real_of_int (recovery_timeout tripped_breaker)"
    by (simp add: tripped_breaker_def)
  have late: "real_of_int (recovery_timeout tripped_breaker) \<le> clock ?w (length ?fs) - 1"
    by (simp add: tripped_breaker_def)
  obtain rs cb' w' where c: "calls tripped_breaker ?fs ?w = (rs, cb', w')"
    by (cases "calls tripped_breaker ?fs ?w")
  note t = fast_fail_keeps_bookkeeping [OF h early c]
  from t have "rs = replicate (length ?fs) (Inl breaker_open_error)" "cb' = tripped_breaker"
    by blast+
  moreover from t late have "gate cb' w' = (Inr (tripped_breaker\<lparr>state := HALF_OPEN\<rparr>), snd (now w'))"
    by blast
  ultimately show ?thesis unfolding c by (simp add: numeral_3_eq_3)
qed

subsection \<open>Coroutine functions\<close>

lemma calls_coroutines:
  fixes w :: "'u world" and funcs :: "('u, 'a) callable list"
  shows "state cb = CLOSED \<Longrightarrow> \<forall>func \<in> set funcs. is_coroutine func \<Longrightarrow>
    failure_count cb + int (length funcs) \<le> failure_threshold cb \<Longrightarrow>
    calls cb funcs w = (rs, cb', w') \<Longrightarrow>
    rs = replicate (length funcs) (Inl async_unsupported_error)
    \<and> failure_count cb' = failure_count cb + int (length funcs)
    \<and> w' = w\<lparr>clock := (\<lambda>n. clock w (length funcs + n))\<rparr>"
proof (induction funcs arbitrary: cb w rs)
  case Nil
  then show ?case by simp
next
  case (Cons func funcs)
  from Cons.prems(2) obtain g where func: "func = CoroutineFunction g"
    by (cases func) (auto simp: is_coroutine_def)
  from Cons.prems(1) have "gate cb w = (Inr cb, w)" by (simp add: gate_not_open)
  from call_through_coroutine [OF this, of g] func
  have c: "call cb func w = (Inl async_unsupported_error, fst (on_failure cb w), snd (now w))"
    by simp
  let ?cb1 = "fst (on_failure cb w)"
  from Cons.prems(4) c obtain rs1 where c1: "calls ?cb1 funcs (snd (now w)) = (rs1, cb', w')"
    and rs: "rs = Inl async_unsupported_error # rs1"
    by (auto split: prod.splits)
  show ?case
  proof (cases funcs)
    case Nil
    with c1 rs show ?thesis by (auto simp: now_def on_failure_simps)
  next
    case (Cons a list)
    with Cons.prems(1,3) have st: "state ?cb1 = CLOSED"
      "failure_count ?cb1 + int (length funcs) \<le> failure_threshold ?cb1"
      by (simp_all add: on_failure_simps)
    from Cons.IH [OF st(1) _ st(2) c1] Cons.prems(2) rs show ?thesis
      by (simp add: now_def on_failure_simps)
  qed
qed

text \<open>
  C10, as the code has it. A call that does not fail fast (the breaker is not OPEN, or it
  is OPEN and the clock reads at least \<open>recovery_timeout\<close> seconds past the last recorded
  failure) and is given a coroutine function raises the RuntimeError, the same for every
  coroutine function, without running it: the world only loses the clock readings of the
  gate and of \<open>_on_failure\<close>, which counts the rejection (failure count up by one, last
  failure time stamped, OPEN once the threshold is reached). So on a CLOSED breaker with
  fewer failures than the threshold, calls in a row with coroutine functions are each
  rejected with that RuntimeError up to the threshold; the breaker is CLOSED while the
  count is below the threshold and OPEN once the calls suffice to reach it. (A call that
  fails fast raises the breaker-open error whatever its work is, and counts nothing.)
\<close>

theorem coroutine_rejected_and_counted:
  fixes w :: "'u world" and funcs :: "('u, 'a) callable list"
    and g :: "'u world \<Rightarrow> (py_exception + 'a) \<times> 'u world"
  shows "(state cb \<noteq> OPEN \<longrightarrow>
            call cb (CoroutineFunction g) w
              = (Inl async_unsupported_error,
                 cb\<lparr>failure_count := failure_count cb + 1,
                    last_failure_time := Some (clock w 0),
                    state := (if failure_threshold cb \<le> failure_count cb + 1 then OPEN
                              else state cb)\<rparr>,
                 w\<lparr>clock := (\<lambda>n. clock w (Suc n))\<rparr>))
       \<and> (state cb = OPEN \<and> last_failure_time cb = Some t0
            \<and> real_of_int (recovery_timeout cb) \<le> clock w 0 - t0 \<longrightarrow>
            call cb (CoroutineFunction g) w
              = (Inl async_unsupported_error,
                 cb\<lparr>failure_count := failure_count cb + 1,
                    last_failure_time := Some (clock w 1),
                    state := (if failure_threshold cb \<le> failure_count cb + 1 then OPEN
                              else HALF_OPEN)\<rparr>,
                 w\<lparr>clock := (\<lambda>n. clock w (Suc (Suc n)))\<rparr>))
       \<and> (state cb = OPEN
            \<and> (last_failure_time cb = None
                 \<or> (\<exists>t1. last_failure_time cb = Some t1
                          \<and> clock w 0 - t1 < real_of_int (recovery_timeout cb))) \<longrightarrow>
            call cb (CoroutineFunction g) w
              = (Inl breaker_open_error, cb,
                 if last_failure_time cb = None then w
                 else w\<lparr>clock := (\<lambda>n. clock w (Suc n))\<rparr>))
       \<and> (state cb = CLOSED \<and> failure_count cb < failure_threshold cb
            \<and> (\<forall>func \<in> set funcs. is_coroutine func)
            \<and> calls cb funcs w = (rs, cb', w') \<longrightarrow>
            (failure_threshold cb \<le> failure_count cb + int (length funcs) \<longrightarrow> state cb' = OPEN)
          \<and> (failure_count cb + int (length funcs) < failure_threshold cb \<longrightarrow> state cb' = CLOSED)
          \<and> (failure_count cb + int (length funcs) \<le> failure_threshold cb \<longrightarrow>
                rs = replicate (length funcs) (Inl async_unsupported_error)
              \<and> failure_count cb' = failure_count cb + int (length funcs)
              \<and> w' = w\<lparr>clock := (\<lambda>n. clock w (length funcs + n))\<rparr>))"
proof (intro conjI impI)
  assume "state cb \<noteq> OPEN"
  then show "call cb (CoroutineFunction g) w
              = (Inl async_unsupported_error,
                 cb\<lparr>failure_count := failure_count cb + 1,
                    last_failure_time := Some (clock w 0),
                    state := (if failure_threshold cb \<le> failure_count cb + 1 then OPEN
                              else state cb)\<rparr>,
                 w\<lparr>clock := (\<lambda>n. clock w (Suc n))\<rparr>)"
    by (simp add: call_def gate_def on_failure_def now_def Let_def)
next
  assume "state cb = OPEN \<and> last_failure_time cb = Some t0
            \<and> real_of_int (recovery_timeout cb) \<le> clock w 0 - t0"
  then show "call cb (CoroutineFunction g) w
              = (Inl async_unsupported_error,
                 cb\<lparr>failure_count := failure_count cb + 1,
                    last_failure_time := Some (clock w 1),
                    state := (if failure_threshold cb \<le> failure_count cb + 1 then OPEN
                              else HALF_OPEN)\<rparr>,
                 w\<lparr>clock := (\<lambda>n. clock w (Suc (Suc n)))\<rparr>)"
    by (simp add: call_def gate_def should_attempt_reset_def on_failure_def now_def Let_def)
next
  assume "state cb = OPEN
            \<and> (last_failure_time cb = None
                 \<or> (\<exists>t1. last_failure_time cb = Some t1
                          \<and> clock w 0 - t1 < real_of_int (recovery_timeout cb)))"
  then show "call cb (CoroutineFunction g) w
              = (Inl breaker_open_error, cb,
                 if last_failure_time cb = None then w
                 else w\<lparr>clock := (\<lambda>n. clock w (Suc n))\<rparr>)"
    by (auto simp: call_def gate_def should_attempt_reset_def now_def Let_def)
next
  assume h: "state cb = CLOSED \<and> failure_count cb < failure_threshold cb
            \<and> (\<forall>func \<in> set funcs. is_coroutine func)
            \<and> calls cb funcs w = (rs, cb', w')"
  then have all: "\<forall>func \<in> set funcs. raising func \<or> is_coroutine func" by blast
  {
    assume "failure_threshold cb \<le> failure_count cb + int (length funcs)"
    with h have "(state cb = OPEN \<and> failure_threshold cb \<le> failure_count cb
                    \<and> last_failure_time cb \<noteq> None)
        \<or> (state cb = CLOSED \<and> failure_count cb < failure_threshold cb
            \<and> failure_threshold cb \<le> failure_count cb + int (length funcs))"
      by simp
    from calls_failing_end_open [OF all this] h show "state cb' = OPEN" by blast
  }
  {
    assume "failure_count cb + int (length funcs) < failure_threshold cb"
    with calls_failing_stay_closed [OF _ all] h show "state cb' = CLOSED" by blast
  }
  {
    assume le: "failure_count cb + int (length funcs) \<le> failure_threshold cb"
    from h have c: "calls cb funcs w = (rs, cb', w')" and cl: "state cb = CLOSED"
      and co: "\<forall>func \<in> set funcs. is_coroutine func"
      by simp_all
    note r = calls_coroutines [OF cl co le c]
    from r show "rs = replicate (length funcs) (Inl async_unsupported_error)" by simp
    from r show "failure_count cb' = failure_count cb + int (length funcs)" by simp
    from r show "w' = w\<lparr>clock := (\<lambda>n. clock w (length funcs + n))\<rparr>" by simp
  }
qed

theorem coroutine_rejected_and_counted_witness:
  "calls (CircuitBreaker_init 2 60) [async_work, async_work] ticking_world
     = ([Inl (RuntimeError (''Circuit breaker does not support async functions directly. '' @
                            ''Use 'await execute_phase()' pattern instead.'')),
         Inl (RuntimeError (''Circuit breaker does not support async functions directly. '' @
                            ''Use 'await execute_phase()' pattern instead.''))],
        \<lparr>failure_threshold = 2, recovery_timeout = 60, failure_count = 2,
         last_failure_time = Some 1, state = OPEN\<rparr>,
        ticking_world\<lparr>clock := (\<lambda>n. real (2 + n))\<rparr>)
   \<and> call (CircuitBreaker_init 2 60) async_work ticking_world
       = (Inl async_unsupported_error,
          \<lparr>failure_threshold = 2, recovery_timeout = 60, failure_count = 1,
           last_failure_time = Some 0, state = CLOSED\<rparr>,
          ticking_world\<lparr>clock := (\<lambda>n. real (Suc n))\<rparr>)
   \<and> call tripped_breaker async_work (ticking_world\<lparr>clock := (\<lambda>n. 2 + real n)\<rparr>)
       = (Inl async_unsupported_error,
          \<lparr>failure_threshold = 2, recovery_timeout = 1, failure_count = 3,
           last_failure_time = Some 3, state = OPEN\<rparr>,
          ticking_world\<lparr>clock := (\<lambda>n. 4 + real n)\<rparr>)"
proof -
  let ?cb = "CircuitBreaker_init 2 60"
  let ?fs = "[async_work, async_work]"
  let ?g = "\<lambda>w :: unit world. (Inr ''success'' :: py_exception + string, w)"
  let ?late = "ticking_world\<lparr>clock := (\<lambda>n. 2 + real n)\<rparr>"
  obtain rs cb' w' where c: "calls ?cb ?fs ticking_world = (rs, cb', w')"
    by (cases "calls ?cb ?fs ticking_world")
  then have last: "last_failure_time cb' = Some 1" "failure_threshold cb' = 2" "recovery_timeout cb' = 60"
    by (auto simp: call_def gate_def on_failure_def now_def CircuitBreaker_init_def
        async_work_def ticking_world_def Let_def)
  have pre: "state ?cb = CLOSED" "failure_count ?cb < failure_threshold ?cb"
    "\<forall>func \<in> set ?fs. is_coroutine func"
    "failure_threshold ?cb \<le> failure_count ?cb + int (length ?fs)"
    "failure_count ?cb + int (length ?fs) \<le> failure_threshold ?cb"
    "failure_count ?cb = 0"
    by (simp_all add: CircuitBreaker_init_def is_coroutine_def async_work_def)
  from coroutine_rejected_and_counted [of ?cb ?g ticking_world 0 ?fs rs cb' w'] pre c
  have "rs = [Inl async_unsupported_error, Inl async_unsupported_error]" "state cb' = OPEN"
    "failure_count cb' = 2" "w' = ticking_world\<lparr>clock := (\<lambda>n. clock ticking_world (2 + n))\<rparr>"
    by simp_all
  with last c have 1: "calls ?cb ?fs ticking_world
     = ([Inl async_unsupported_error, Inl async_unsupported_error],
        \<lparr>failure_threshold = 2, recovery_timeout = 60, failure_count = 2,
         last_failure_time = Some 1, state = OPEN\<rparr>,
        ticking_world\<lparr>clock := (\<lambda>n. real (2 + n))\<rparr>)"
    by (simp add: numeral_2_eq_2 ticking_world_def)
  have "state ?cb \<noteq> OPEN" by (simp add: CircuitBreaker_init_def)
  with coroutine_rejected_and_counted [of ?cb ?g ticking_world 0 "[]" "[]" ?cb ticking_world]
  have 2: "call ?cb async_work ticking_world
       = (Inl async_unsupported_error,
          \<lparr>failure_threshold = 2, recovery_timeout = 60, failure_count = 1,
           last_failure_time = Some 0, state = CLOSED\<rparr>,
          ticking_world\<lparr>clock := (\<lambda>n. real (Suc n))\<rparr>)"
    by (simp add: async_work_def CircuitBreaker_init_def ticking_world_def)
  have "state tripped_breaker = OPEN \<and> last_failure_time tripped_breaker = Some 1
          \<and> real_of_int (recovery_timeout tripped_breaker) \<le> clock ?late 0 - 1"
    by (simp add: tripped_breaker_def)
  with coroutine_rejected_and_counted [of tripped_breaker ?g ?late 1 "[]" "[]" tripped_breaker ?late]
  have 3: "call tripped_breaker async_work ?late
       = (Inl async_unsupported_error,
          \<lparr>failure_threshold = 2, recovery_timeout = 1, failure_count = 3,
           last_failure_time = Some 3, state = OPEN\<rparr>,
          ticking_world\<lparr>clock := (\<lambda>n. 4 + real n)\<rparr>)"
    by (simp add: async_work_def tripped_breaker_def ticking_world_def)
  from 1 2 3 show ?thesis by (simp add: async_unsupported_error_def)
qed

text \<open>
  A coroutine function that meets a call failing fast: of three calls in a row with a
  coroutine function on \<open>CircuitBreaker(failure_threshold=2, recovery_timeout=60)\<close>, at
  0 s, 1 s and 2 s, the third finds the breaker OPEN one second after the last failure
  and raises the breaker-open \<open>Exception\<close>, not the RuntimeError; nothing is counted.
\<close>

theorem coroutine_counterexample:
  "fst (calls (CircuitBreaker_init 2 60) [async_work, async_work, async_work] ticking_world)
     = [Inl async_unsupported_error, Inl async_unsupported_error,
        Inl (Exception ''Circuit breaker is OPEN - failing fast'')]
   \<and> fst (snd (calls (CircuitBreaker_init 2 60) [async_work, async_work] ticking_world))
       = \<lparr>failure_threshold = 2, recovery_timeout = 60, failure_count = 2,
          last_failure_time = Some 1, state = OPEN\<rparr>
   \<and> fst (snd (calls (CircuitBreaker_init 2 60) [async_work, async_work, async_work] ticking_world))
       = \<lparr>failure_threshold = 2, recovery_timeout = 60, failure_count = 2,
          last_failure_time = Some 1, state = OPEN\<rparr>"
  by (simp add: call_def gate_def should_attempt_reset_def on_failure_def now_def
      CircuitBreaker_init_def async_work_def ticking_world_def breaker_open_error_def Let_def)


section \<open>Properties of the rate limiter\<close>

lemma asyncio_sleep_simps [simp]:
  "clock (asyncio_sleep d w) = clock w"
  "slept (asyncio_sleep d w) = slept w @ [d]"
  "disk (asyncio_sleep d w) = disk w"
  "ext (asyncio_sleep d w) = ext w"
  by (simp_all add: asyncio_sleep_def)

lemma refill_buckets_range:
  assumes "buckets_in_range rl" and "refill_buckets rl w = (rl', w')"
  shows "buckets_in_range rl'" and "rpm_limit rl' = rpm_limit rl" and "rph_limit rl' = rph_limit rl"
    and "minute_bucket rl \<le> minute_bucket rl'" and "hour_bucket rl \<le> hour_bucket rl'"
    and "request_times rl' = request_times rl"
proof -
  define elapsed where "elapsed = clock w 0 - last_refill rl"
  from assms(1) have lim: "0 \<le> real_of_int (rpm_limit rl)" "0 \<le> real_of_int (rph_limit rl)"
    and rng: "0 \<le> minute_bucket rl" "minute_bucket rl \<le> real_of_int (rpm_limit rl)"
      "0 \<le> hour_bucket rl" "hour_bucket rl \<le> real_of_int (rph_limit rl)"
    by (auto simp: buckets_in_range_def)
  have all: "buckets_in_range rl' \<and> rpm_limit rl' = rpm_limit rl \<and> rph_limit rl' = rph_limit rl
    \<and> minute_bucket rl \<le> minute_bucket rl' \<and> hour_bucket rl \<le> hour_bucket rl'
    \<and> request_times rl' = request_times rl"
  proof (cases "elapsed > 0")
    case True
    then have add: "0 \<le> elapsed / 60 * real_of_int (rpm_limit rl)"
      "0 \<le> elapsed / 3600 * real_of_int (rph_limit rl)"
      using lim by simp_all
    from True assms(2) have rl': "rl' = rl\<lparr>minute_bucket :=
                 min (real_of_int (rpm_limit rl))
                     (minute_bucket rl + (elapsed / 60) * real_of_int (rpm_limit rl)),
               hour_bucket :=
                 min (real_of_int (rph_limit rl))
                     (hour_bucket rl + (elapsed / 3600) * real_of_int (rph_limit rl)),
               last_refill := clock w 0\<rparr>"
      by (auto simp: refill_buckets_def now_def Let_def elapsed_def)
    from rng add show ?thesis
      unfolding rl' by (simp add: buckets_in_range_def)
  next
    case False
    with assms(2) have "rl' = rl"
      by (auto simp: refill_buckets_def now_def Let_def elapsed_def)
    with assms(1) show ?thesis by simp
  qed
  then show "buckets_in_range rl'" "rpm_limit rl' = rpm_limit rl" "rph_limit rl' = rph_limit rl"
    "minute_bucket rl \<le> minute_bucket rl'" "hour_bucket rl \<le> hour_bucket rl'"
    "request_times rl' = request_times rl"
    by simp_all
qed

lemma clean_old_requests_buckets:
  assumes "clean_old_requests rl w = (rl', w')"
  shows "minute_bucket rl' = minute_bucket rl" "hour_bucket rl' = hour_bucket rl"
    "rpm_limit rl' = rpm_limit rl" "rph_limit rl' = rph_limit rl" "last_refill rl' = last_refill rl"
    "w' = snd (now w)"
  using assms by (auto simp: clean_old_requests_def now_def Let_def)

lemma wait_time_slept: "slept (snd (wait_time rl b w)) = slept w"
  by (simp add: wait_time_def now_def Let_def split: prod.splits)

lemma compute_wait_time_range:
  assumes "buckets_in_range rl" and "compute_wait_time rl w = (wait, rl2, w3)"
  shows "buckets_in_range rl2" and "rpm_limit rl2 = rpm_limit rl" and "rph_limit rl2 = rph_limit rl"
proof -
  obtain rl1 w1 where r: "refill_buckets rl w = (rl1, w1)" by (cases "refill_buckets rl w")
  obtain rl2' w2 where c: "clean_old_requests rl1 w1 = (rl2', w2)"
    by (cases "clean_old_requests rl1 w1")
  from assms(2) r c have "rl2 = rl2'"
    by (simp add: compute_wait_time_def split: prod.splits)
  with refill_buckets_range(1-3) [OF assms(1) r] clean_old_requests_buckets(1-4) [OF c]
  show "buckets_in_range rl2" "rpm_limit rl2 = rpm_limit rl" "rph_limit rl2 = rph_limit rl"
    by (simp_all add: buckets_in_range_def)
qed

lemma consume_range:
  assumes "buckets_in_range rl"
  shows "buckets_in_range (rl\<lparr>minute_bucket := max 0 (minute_bucket rl - 1),
                             hour_bucket := max 0 (hour_bucket rl - 1)\<rparr>)"
  using assms by (auto simp: buckets_in_range_def)

lemma acquire_range:
  assumes "buckets_in_range rl" and "acquire rl w = (rl', w')"
  shows "buckets_in_range rl'" and "rpm_limit rl' = rpm_limit rl" and "rph_limit rl' = rph_limit rl"
proof -
  obtain wait rl2 w3 where c: "compute_wait_time rl w = (wait, rl2, w3)"
    by (cases "compute_wait_time rl w") auto
  note r2 = compute_wait_time_range [OF assms(1) c]
  define step where "step = (if wait > 0 then refill_buckets rl2 (asyncio_sleep wait w3) else (rl2, w3))"
  obtain rl3 w4 where s: "step = (rl3, w4)" by (cases step)
  have r3: "buckets_in_range rl3" "rpm_limit rl3 = rpm_limit rl" "rph_limit rl3 = rph_limit rl"
    using s r2 refill_buckets_range(1-3) [OF r2(1), of "asyncio_sleep wait w3" rl3 w4]
    by (auto simp: step_def split: if_splits)
  from assms(2) c s have "\<exists>ts. rl' = rl3\<lparr>minute_bucket := max 0 (minute_bucket rl3 - 1),
                             hour_bucket := max 0 (hour_bucket rl3 - 1), request_times := ts\<rparr>"
    by (auto simp: acquire_def step_def Let_def now_def split: prod.splits)
  then obtain ts where "rl' = rl3\<lparr>minute_bucket := max 0 (minute_bucket rl3 - 1),
                             hour_bucket := max 0 (hour_bucket rl3 - 1), request_times := ts\<rparr>" ..
  with consume_range [OF r3(1)] r3(2,3)
  show "buckets_in_range rl'" "rpm_limit rl' = rpm_limit rl" "rph_limit rl' = rph_limit rl"
    by (simp_all add: buckets_in_range_def)
qed

lemma run_ops_range:
  "buckets_in_range rl \<Longrightarrow> run_ops ops rl w = (rl', w') \<Longrightarrow>
   buckets_in_range rl' \<and> rpm_limit rl' = rpm_limit rl \<and> rph_limit rl' = rph_limit rl"
proof (induction ops arbitrary: rl w)
  case Nil
  then show ?case by simp
next
  case (Cons op ops)
  show ?case
  proof (cases op)
    case Acquire
    obtain rl1 w1 where a: "acquire rl w = (rl1, w1)" by (cases "acquire rl w")
    with Cons.prems(2) Acquire have "run_ops ops rl1 w1 = (rl', w')" by simp
    from Cons.IH [OF _ this] acquire_range [OF Cons.prems(1) a] show ?thesis by simp
  next
    case Refill
    obtain rl1 w1 where a: "refill_buckets rl w = (rl1, w1)" by (cases "refill_buckets rl w")
    with Cons.prems(2) Refill have "run_ops ops rl1 w1 = (rl', w')" by simp
    from Cons.IH [OF _ this] refill_buckets_range(1-3) [OF Cons.prems(1) a] show ?thesis by simp
  qed
qed

lemma init_range:
  "0 \<le> rpm \<Longrightarrow> 0 \<le> rph \<Longrightarrow> RateLimiter_init rpm rph w = (rl, w') \<Longrightarrow>
   buckets_in_range rl \<and> rpm_limit rl = rpm \<and> rph_limit rl = rph"
  by (auto simp: RateLimiter_init_def buckets_in_range_def now_def Let_def)

text \<open>
  C8. For non-negative configured limits, after any sequence of \<open>acquire\<close> and refill
  operations on a limiter built by \<open>__init__\<close>, each bucket is at least 0 and at most its
  configured maximum; a refill from that state lowers neither bucket and leaves each at
  most its maximum.
\<close>

theorem buckets_stay_in_range:
  fixes w0 :: "'u world"
  assumes "0 \<le> rpm" and "0 \<le> rph"
    and "RateLimiter_init rpm rph w0 = (rl0, w1)"
    and "run_ops ops rl0 w1 = (rl, w)"
  shows "rpm_limit rl = rpm \<and> rph_limit rl = rph
       \<and> 0 \<le> minute_bucket rl \<and> minute_bucket rl \<le> real_of_int rpm
       \<and> 0 \<le> hour_bucket rl \<and> hour_bucket rl \<le> real_of_int rph
       \<and> (\<forall>(v :: 'u world) rl' v'. refill_buckets rl v = (rl', v') \<longrightarrow>
             minute_bucket rl \<le> minute_bucket rl' \<and> minute_bucket rl' \<le> real_of_int rpm
           \<and> hour_bucket rl \<le> hour_bucket rl' \<and> hour_bucket rl' \<le> real_of_int rph)"
proof -
  from init_range [OF assms(1-3)]
  have i: "buckets_in_range rl0" "rpm_limit rl0 = rpm" "rph_limit rl0 = rph" by simp_all
  from run_ops_range [OF i(1) assms(4)] i(2,3)
  have r: "buckets_in_range rl" "rpm_limit rl = rpm" "rph_limit rl = rph" by simp_all
  have "minute_bucket rl \<le> minute_bucket rl' \<and> minute_bucket rl' \<le> real_of_int rpm
           \<and> hour_bucket rl \<le> hour_bucket rl' \<and> hour_bucket rl' \<le> real_of_int rph"
    if "refill_buckets rl v = (rl', v')" for v :: "'u world" and rl' v'
    using refill_buckets_range [OF r(1) that] r(2,3) by (simp add: buckets_in_range_def)
  with r show ?thesis by (simp add: buckets_in_range_def)
qed



theorem buckets_stay_in_range_witness:
  "0 \<le> minute_bucket (fst (after_acquires 5 5))
   \<and> minute_bucket (fst (after_acquires 5 5)) \<le> 5
   \<and> minute_bucket (fst (after_acquires 5 5))
       \<le> minute_bucket (fst (refill_buckets (fst (after_acquires 5 5)) (snd (after_acquires 5 5))))"
proof -
  obtain rl0 w1 where i: "RateLimiter_init 5 1000 back_to_back = (rl0, w1)"
    by (cases "RateLimiter_init 5 1000 back_to_back")
  obtain rl w where r: "run_ops (replicate 5 Acquire) rl0 w1 = (rl, w)"
    by (cases "run_ops (replicate 5 Acquire) rl0 w1")
  from i r have a: "after_acquires 5 5 = (rl, w)" by (simp add: after_acquires_def)
  obtain rl' w' where f: "refill_buckets rl w = (rl', w')" by (cases "refill_buckets rl w")
  have "(0::int) \<le> 5" "(0::int) \<le> 1000" by simp_all
  from buckets_stay_in_range [OF this i r] f a show ?thesis by auto
qed

lemmas rl_defs = acquire_def compute_wait_time_def wait_time_def backoff_multiplier_def
  clean_old_requests_def refill_buckets_def RateLimiter_init_def now_def asyncio_sleep_def Let_def

subsection \<open>The computed wait\<close>

lemma wait_time_value:
  "fst (wait_time rl b w) =
     (let wait1 = (if minute_bucket rl < 1 then max 0 (60 - (clock w 0 - last_refill rl)) else 0);
          wait2 = (if hour_bucket rl < 1
                   then max wait1 (3600 - (clock w (if minute_bucket rl < 1 then 1 else 0) - last_refill rl))
                   else wait1)
      in wait2 * b)"
  by (simp add: wait_time_def now_def Let_def split: prod.splits)

lemma backoff_multiplier_cases: "backoff_multiplier rl = 1 \<or> backoff_multiplier rl = 2"
  by (simp add: backoff_multiplier_def Let_def)

lemma acquire_sleeps_wait:
  assumes "compute_wait_time rl w = (wait, rl2, w3)" and "0 < wait"
  shows "\<exists>rest. slept (snd (acquire rl w)) = slept w3 @ wait # rest"
proof -
  obtain rl3 w4 where r: "refill_buckets rl2 (asyncio_sleep wait w3) = (rl3, w4)"
    by (cases "refill_buckets rl2 (asyncio_sleep wait w3)")
  then have "slept w4 = slept w3 @ [wait]"
    by (auto simp: refill_buckets_def now_def Let_def split: if_splits)
  with assms r show ?thesis
    by (auto simp: acquire_def Let_def now_def asyncio_sleep_def split: prod.splits)
qed

lemma refill_buckets_world: "snd (refill_buckets rl w) = snd (now w)"
  by (simp add: refill_buckets_def now_def Let_def)

lemma compute_wait_time_slept:
  assumes "compute_wait_time rl w = (wait, rl2, w3)"
  shows "slept w3 = slept w"
proof -
  obtain rl1 w1 where r: "refill_buckets rl w = (rl1, w1)" by (cases "refill_buckets rl w")
  obtain rl2' w2 where c: "clean_old_requests rl1 w1 = (rl2', w2)"
    by (cases "clean_old_requests rl1 w1")
  from r have "slept w1 = slept w" using refill_buckets_world [of rl w] by simp
  moreover from c have "slept w2 = slept w1" using clean_old_requests_buckets(6) [OF c] by simp
  moreover from assms r c have "w3 = snd (wait_time rl2' (backoff_multiplier rl2') w2)"
    by (auto simp: compute_wait_time_def split: prod.splits)
  ultimately show ?thesis by (simp add: wait_time_slept)
qed

lemma backoff_multiplier_value:
  "backoff_multiplier rl =
     (if 10 \<le> length (request_times rl)
         \<and> last (request_times rl) - request_times rl ! (length (request_times rl) - 10) < 60
      then 2 else 1)"
  by (simp add: backoff_multiplier_def Let_def hd_drop_conv_nth)

lemma compute_wait_time_clock:
  assumes "refill_buckets rl w = (rl1, w1)" and "clean_old_requests rl1 w1 = (rl2, w2)"
  shows "clock w2 n = clock w (Suc (Suc n))"
    and "last_refill rl2 = (if last_refill rl < clock w 0 then clock w 0 else last_refill rl)"
  using assms
  by (auto simp: refill_buckets_def clean_old_requests_def now_def Let_def split: if_splits)

text \<open>
  C5, as the code has it. In a call of \<open>acquire\<close>, let the lazy refill and the pruning of
  the request history leave the limiter \<open>rl2\<close> in world \<open>w2\<close>, two clock readings after
  the call began. The computed wait is the backoff multiplier (2 when at least ten requests
  are recorded and the last ten span less than 60 s, else 1) times the largest, over the
  buckets below 1 token, of the time remaining until the window of that bucket (60 s, 3600 s)
  has passed since the last refill, the clock read at the test of each such bucket; it is
  0 when no bucket is below 1 or no time remains, and never negative. So it is at least the
  time remaining in the window of each bucket below 1 token; it is exactly the time
  remaining in the minute window when only the minute bucket is below 1, the multiplier is
  1 and the window has not yet passed. A positive wait is what \<open>acquire\<close> sleeps first.
\<close>

theorem acquire_wait_at_least_window:
  fixes w :: "'u world"
  assumes "refill_buckets rl w = (rl1, w1)" and "clean_old_requests rl1 w1 = (rl2, w2)"
  shows "(\<exists>w3. compute_wait_time rl w = (fst (compute_wait_time rl w), rl2, w3))
       \<and> fst (compute_wait_time rl w)
           = (if 10 \<le> length (request_times rl2)
                 \<and> last (request_times rl2)
                     - request_times rl2 ! (length (request_times rl2) - 10) < 60
              then 2 else 1)
             * max 0 (max (if minute_bucket rl2 < 1
                           then 60 - (clock w2 0 - last_refill rl2) else 0)
                          (if hour_bucket rl2 < 1
                           then 3600 - (clock w2 (if minute_bucket rl2 < 1 then 1 else 0)
                                        - last_refill rl2)
                           else 0))
       \<and> 0 \<le> fst (compute_wait_time rl w)
       \<and> (\<forall>n. clock w2 n = clock w (Suc (Suc n)))
       \<and> last_refill rl2 = (if last_refill rl < clock w 0 then clock w 0 else last_refill rl)
       \<and> (minute_bucket rl2 < 1 \<longrightarrow>
            60 - (clock w2 0 - last_refill rl2) \<le> fst (compute_wait_time rl w))
       \<and> (hour_bucket rl2 < 1 \<longrightarrow>
            3600 - (clock w2 (if minute_bucket rl2 < 1 then 1 else 0) - last_refill rl2)
              \<le> fst (compute_wait_time rl w))
       \<and> (minute_bucket rl2 < 1 \<and> 1 \<le> hour_bucket rl2 \<and> backoff_multiplier rl2 = 1
            \<and> clock w2 0 - last_refill rl2 \<le> 60 \<longrightarrow>
            fst (compute_wait_time rl w) = 60 - (clock w2 0 - last_refill rl2))
       \<and> (0 < fst (compute_wait_time rl w) \<longrightarrow>
            (\<exists>rest. slept (snd (acquire rl w))
                      = slept w @ fst (compute_wait_time rl w) # rest))"
proof -
  define wait where "wait = fst (wait_time rl2 (backoff_multiplier rl2) w2)"
  define b where "b = backoff_multiplier rl2"
  define e1 where "e1 = clock w2 0 - last_refill rl2"
  define e2 where "e2 = clock w2 (if minute_bucket rl2 < 1 then 1 else 0) - last_refill rl2"
  have cw: "compute_wait_time rl w = (wait, rl2, snd (wait_time rl2 (backoff_multiplier rl2) w2))"
    using assms by (simp add: compute_wait_time_def wait_def split: prod.splits)
  then have fw: "fst (compute_wait_time rl w) = wait" by simp
  have b: "b = 1 \<or> b = 2" unfolding b_def by (rule backoff_multiplier_cases)
  define wait1 where "wait1 = (if minute_bucket rl2 < 1 then max 0 (60 - e1) else 0)"
  define wait2 where "wait2 = (if hour_bucket rl2 < 1 then max wait1 (3600 - e2) else wait1)"
  have w: "wait = wait2 * b"
    unfolding wait_def wait_time_value wait2_def wait1_def e1_def e2_def b_def
    by (simp add: Let_def)
  have largest: "wait2 = max 0 (max (if minute_bucket rl2 < 1 then 60 - e1 else 0)
                                   (if hour_bucket rl2 < 1 then 3600 - e2 else 0))"
    by (simp add: wait1_def wait2_def max_def)
  have formula: "wait = b * max 0 (max (if minute_bucket rl2 < 1 then 60 - e1 else 0)
                                       (if hour_bucket rl2 < 1 then 3600 - e2 else 0))"
    using w largest by (simp add: mult.commute)
  have nonneg: "0 \<le> wait1" "wait1 \<le> wait2" by (simp_all add: wait1_def wait2_def)
  then have ge: "wait2 \<le> wait" using b w by auto
  with nonneg have pos: "0 \<le> wait" by linarith
  have m: "60 - e1 \<le> wait" if "minute_bucket rl2 < 1"
    using that ge nonneg by (simp add: wait1_def)
  have h: "3600 - e2 \<le> wait" if "hour_bucket rl2 < 1"
    using that ge by (simp add: wait2_def)
  have exact: "wait = 60 - e1"
    if "minute_bucket rl2 < 1" "1 \<le> hour_bucket rl2" "b = 1" "e1 \<le> 60"
    using that w by (simp add: wait1_def wait2_def)
  have sl: "\<exists>rest. slept (snd (acquire rl w)) = slept w @ wait # rest" if "0 < wait"
    using acquire_sleeps_wait [OF cw that] compute_wait_time_slept [OF cw] by simp
  note ck = compute_wait_time_clock [OF assms]
  have 1: "\<exists>w3. compute_wait_time rl w = (fst (compute_wait_time rl w), rl2, w3)"
    using cw by simp
  have 2: "fst (compute_wait_time rl w)
           = (if 10 \<le> length (request_times rl2)
                 \<and> last (request_times rl2)
                     - request_times rl2 ! (length (request_times rl2) - 10) < 60
              then 2 else 1)
             * max 0 (max (if minute_bucket rl2 < 1
                           then 60 - (clock w2 0 - last_refill rl2) else 0)
                          (if hour_bucket rl2 < 1
                           then 3600 - (clock w2 (if minute_bucket rl2 < 1 then 1 else 0)
                                        - last_refill rl2)
                           else 0))"
    using formula unfolding fw b_def e1_def e2_def backoff_multiplier_value by simp
  from 1 2 pos ck m h exact sl show ?thesis
    unfolding fw b_def e1_def e2_def by blast
qed


lemma five_acquires:
  "fst (after_acquires 5 5) = \<lparr>rpm_limit = 5, rph_limit = 1000, minute_bucket = 1 / 1000,
      hour_bucket = 298501 / 300, last_refill = 13 / 1000,
      request_times = [3 / 1000, 3 / 500, 9 / 1000, 3 / 250, 3 / 200]\<rparr>"
  "clock (snd (after_acquires 5 5)) n = real (n + 16) / 1000"
  "slept (snd (after_acquires 5 5)) = []"
  by (simp_all add: after_acquires_def rl_defs back_to_back_def numeral_eq_Suc)

theorem acquire_wait_at_least_window_witness:
  "fst (compute_wait_time (fst (after_acquires 5 5)) (snd (after_acquires 5 5))) = 60 - 2 / 1000
   \<and> (\<exists>rest. slept (snd (acquire (fst (after_acquires 5 5)) (snd (after_acquires 5 5))))
                = (60 - 2 / 1000) # rest)"
proof -
  let ?rl = "fst (after_acquires 5 5)"
  let ?w = "snd (after_acquires 5 5)"
  obtain rl1 w1 where r: "refill_buckets ?rl ?w = (rl1, w1)" by (cases "refill_buckets ?rl ?w")
  obtain rl2 w2 where c: "clean_old_requests rl1 w1 = (rl2, w2)"
    by (cases "clean_old_requests rl1 w1")
  from r have rl1: "rl1 = \<lparr>rpm_limit = 5, rph_limit = 1000, minute_bucket = 1 / 800,
      hour_bucket = 238801 / 240, last_refill = 2 / 125,
      request_times = [3 / 1000, 3 / 500, 9 / 1000, 3 / 250, 3 / 200]\<rparr>"
    and w1: "clock w1 = (\<lambda>n. clock ?w (Suc n))"
    by (auto simp: refill_buckets_def now_def Let_def five_acquires)
  from c rl1 w1 have rl2: "minute_bucket rl2 = 1 / 800" "hour_bucket rl2 = 238801 / 240"
    "last_refill rl2 = 2 / 125" "length (request_times rl2) = 5"
    and w2: "clock w2 0 = 18 / 1000"
    by (auto simp: clean_old_requests_def now_def Let_def five_acquires)
  have b: "backoff_multiplier rl2 = 1" using rl2(4) by (simp add: backoff_multiplier_def)
  note t = acquire_wait_at_least_window [OF r c]
  from t rl2 w2 b have 1: "fst (compute_wait_time ?rl ?w) = 60 - 2 / 1000"
    by simp
  with t have "\<exists>rest. slept (snd (acquire ?rl ?w)) = slept ?w @ (60 - 2 / 1000) # rest"
    by simp
  with 1 show ?thesis by (simp add: five_acquires)
qed

lemma ten_acquires:
  "fst (after_acquires 10 10) = \<lparr>rpm_limit = 10, rph_limit = 1000, minute_bucket = 9 / 2000,
      hour_bucket = 396003 / 400, last_refill = 7 / 250,
      request_times = [3 / 1000, 3 / 500, 9 / 1000, 3 / 250, 3 / 200, 9 / 500, 21 / 1000,
                       3 / 125, 27 / 1000, 3 / 100]\<rparr>"
  "clock (snd (after_acquires 10 10)) n = real (n + 31) / 1000"
  by (simp_all add: after_acquires_def rl_defs back_to_back_def numeral_eq_Suc)

text \<open>
  The wait is not always the time remaining in the window. On
  \<open>RateLimiter(requests_per_minute=10, requests_per_hour=1000)\<close>, called eleven times back
  to back, the eleventh call finds the minute bucket at 1/200 of a token after its refill,
  59.998 s of the minute window remaining, ten requests recorded within 27 ms, and computes
  a wait of 119.996 s: the remaining time doubled by the backoff.
\<close>

theorem acquire_wait_counterexample:
  "minute_bucket (fst (snd (compute_wait_time (fst (after_acquires 10 10)) (snd (after_acquires 10 10)))))
     = 1 / 200
   \<and> 60 - (clock (snd (after_acquires 10 10)) 2
            - last_refill (fst (snd (compute_wait_time (fst (after_acquires 10 10))
                                                       (snd (after_acquires 10 10))))))
     = 60 - 2 / 1000
   \<and> fst (compute_wait_time (fst (after_acquires 10 10)) (snd (after_acquires 10 10)))
     = 120 - 4 / 1000"
  by (simp add: compute_wait_time_def wait_time_def backoff_multiplier_def
      clean_old_requests_def refill_buckets_def now_def Let_def ten_acquires)


section \<open>Properties of the state manager\<close>

lemma get_current_branch_cases:
  "get_current_branch w =
     (case branch_file (disk w) of
        Inaccessible \<Rightarrow> Inl permission_denied
      | Holds (JObject entries) \<Rightarrow>
          Inr (case dict_get entries ''branch'' of None \<Rightarrow> JNull | Some v \<Rightarrow> v)
      | _ \<Rightarrow> Inr JNull)"
  by (simp add: get_current_branch_def exists_file_def read_json_def
      split: file_state.splits json.splits)

lemma get_current_branch_recorded:
  "v \<noteq> JNull \<Longrightarrow>
   get_current_branch w = Inr v \<longleftrightarrow>
     (\<exists>entries. branch_file (disk w) = Holds (JObject entries) \<and> dict_get entries ''branch'' = Some v)"
  by (auto simp: get_current_branch_cases split: file_state.splits json.splits option.splits)

lemma set_current_branch_recorded:
  "set_current_branch b w = (Inr (), w1) \<Longrightarrow> get_current_branch w1 = Inr (JStr b)"
  by (auto simp: set_current_branch_def get_current_branch_cases now_def Let_def dict_get_def
      split: sum.splits)

lemma should_archive_true:
  "should_archive b w = Inr True \<longleftrightarrow>
     (\<exists>v. get_current_branch w = Inr v \<and> v \<noteq> JNull \<and> v \<noteq> JStr b)"
  by (auto simp: should_archive_def split: sum.splits)

lemma should_archive_raises:
  "isl (should_archive b w) \<longleftrightarrow> branch_file (disk w) = Inaccessible"
  by (auto simp: should_archive_def get_current_branch_cases
      split: sum.splits file_state.splits json.splits)

lemma archive_noop:
  "should_archive b w = Inr False \<Longrightarrow> archive_current_state b w = (Inr (), w)"
  by (simp add: archive_current_state_def)

lemma archive_success_marker:
  assumes "archive_current_state b w = (Inr (), w1)"
  shows "should_archive b w1 = Inr False"
proof (cases "should_archive b w")
  case (Inl e)
  with assms show ?thesis by (simp add: archive_current_state_def)
next
  case (Inr go)
  show ?thesis
  proof (cases go)
    case False
    with Inr assms show ?thesis by (simp add: archive_current_state_def)
  next
    case True
    with Inr assms have "\<exists>w'. set_current_branch b w' = (Inr (), w1)"
      by (auto simp: archive_current_state_def Let_def
          split: sum.splits prod.splits json.splits option.splits if_splits)
    then obtain w' where "set_current_branch b w' = (Inr (), w1)" ..
    from set_current_branch_recorded [OF this] show ?thesis
      by (simp add: should_archive_def)
  qed
qed


text \<open>
  C6. \<open>should_archive\<close> returns true exactly when the branch file holds a marker whose
  branch is set and differs from the new branch (it raises only when the marker path
  cannot be examined). When the recorded branch equals the new branch, or none is
  recorded, \<open>archive_current_state\<close> returns with the world as it was: no folder made, the
  marker untouched; whenever \<open>should_archive\<close> does not return true, the world is left as
  it was. After a call that returned normally, a second call with the same branch returns
  with the world as the first left it.
\<close>

theorem archive_same_branch_noop:
  fixes w :: "'u world"
  shows "(should_archive new_branch w = Inr True \<longleftrightarrow>
            (\<exists>entries last. branch_file (disk w) = Holds (JObject entries)
               \<and> dict_get entries ''branch'' = Some last
               \<and> last \<noteq> JNull \<and> last \<noteq> JStr new_branch))
       \<and> (isl (should_archive new_branch w) \<longleftrightarrow> branch_file (disk w) = Inaccessible)
       \<and> (get_current_branch w = Inr (JStr new_branch) \<or> get_current_branch w = Inr JNull \<longrightarrow>
            archive_current_state new_branch w = (Inr (), w))
       \<and> (should_archive new_branch w \<noteq> Inr True \<longrightarrow>
            snd (archive_current_state new_branch w) = w)
       \<and> (\<forall>w1. archive_current_state new_branch w = (Inr (), w1) \<longrightarrow>
            archive_current_state new_branch w1 = (Inr (), w1))"
proof (intro conjI impI allI)
  show "should_archive new_branch w = Inr True \<longleftrightarrow>
          (\<exists>entries last. branch_file (disk w) = Holds (JObject entries)
             \<and> dict_get entries ''branch'' = Some last
             \<and> last \<noteq> JNull \<and> last \<noteq> JStr new_branch)"
    unfolding should_archive_true using get_current_branch_recorded [of _ w] by blast
next
  show "isl (should_archive new_branch w) \<longleftrightarrow> branch_file (disk w) = Inaccessible"
    by (rule should_archive_raises)
next
  assume "get_current_branch w = Inr (JStr new_branch) \<or> get_current_branch w = Inr JNull"
  then have "should_archive new_branch w = Inr False" by (auto simp: should_archive_def)
  then show "archive_current_state new_branch w = (Inr (), w)" by (rule archive_noop)
next
  assume "should_archive new_branch w \<noteq> Inr True"
  then show "snd (archive_current_state new_branch w) = w"
    by (cases "should_archive new_branch w") (auto simp: archive_current_state_def)
next
  fix w1 assume "archive_current_state new_branch w = (Inr (), w1)"
  then have "should_archive new_branch w1 = Inr False" by (rule archive_success_marker)
  then show "archive_current_state new_branch w1 = (Inr (), w1)" by (rule archive_noop)
qed

lemma sample_archive:
  "fst (archive_current_state ''feature/new'' old_branch_world) = Inr ()"
  "archive_dir (disk (snd (archive_current_state ''feature/new'' old_branch_world)))
     ''2026-01-01-feature-old''
     = Some \<lparr>progress_copy = Holds (JObject [(''test'', JStr ''data'')]), prd_copy = Missing\<rparr>"
  "get_current_branch (snd (archive_current_state ''feature/new'' old_branch_world))
     = Inr (JStr ''feature/new'')"
  by (simp_all add: archive_current_state_def should_archive_def get_current_branch_def
      exists_file_def read_json_def copy_file_def write_guard_def put_folder_def
      set_current_branch_def sanitize_def empty_folder_def now_def Let_def dict_get_def
      old_branch_world_def ticking_world_def empty_disk_def)

theorem archive_same_branch_noop_witness:
  "should_archive ''feature/new'' old_branch_world = Inr True
   \<and> archive_current_state ''feature/old'' old_branch_world = (Inr (), old_branch_world)
   \<and> archive_current_state ''feature/new'' (snd (archive_current_state ''feature/new'' old_branch_world))
       = (Inr (), snd (archive_current_state ''feature/new'' old_branch_world))"
proof -
  have m: "branch_file (disk old_branch_world)
             = Holds (JObject [(''branch'', JStr ''feature/old''),
                               (''timestamp'', JStr ''2026-01-01T00:00:00'')])"
    by (simp add: old_branch_world_def empty_disk_def)
  then have g: "get_current_branch old_branch_world = Inr (JStr ''feature/old'')"
    by (simp add: get_current_branch_cases dict_get_def)
  note t1 = archive_same_branch_noop [of "''feature/new''" old_branch_world]
  note t2 = archive_same_branch_noop [of "''feature/old''" old_branch_world]
  from t1 m have 1: "should_archive ''feature/new'' old_branch_world = Inr True"
    by (simp add: dict_get_def)
  from t2 g have 2: "archive_current_state ''feature/old'' old_branch_world = (Inr (), old_branch_world)"
    by simp
  have "archive_current_state ''feature/new'' old_branch_world
          = (Inr (), snd (archive_current_state ''feature/new'' old_branch_world))"
    using sample_archive(1) by (metis prod.collapse)
  with t1 have 3: "archive_current_state ''feature/new'' (snd (archive_current_state ''feature/new'' old_branch_world))
       = (Inr (), snd (archive_current_state ''feature/new'' old_branch_world))"
    by blast
  from 1 2 3 show ?thesis by blast
qed

subsection \<open>Loading the progress document\<close>

lemma load_progress_cases:
  "load_progress w =
     (case progress_file (disk w) of
        Inaccessible \<Rightarrow> (Inl permission_denied, w)
      | Holds document \<Rightarrow> (Inr document, w)
      | _ \<Rightarrow> (Inr (default_progress w (clock w 0)), snd (now w)))"
  by (cases "progress_file (disk w)")
     (simp_all add: load_progress_def exists_file_def read_json_def now_def default_progress_def)

text \<open>
  C7, as the code has it. In every state of the store in which the progress path can be
  examined, \<open>load_progress\<close> returns a document and raises nothing. When the file is
  missing, cannot be read, or holds text that is not JSON, the document is the default one:
  an empty cycle list, an empty pattern list and the current clock reading, in ISO format,
  as start time; one clock reading is consumed. A file that parses is returned as it
  parses, whatever its shape, and the world is untouched. (When the path cannot be
  examined, the \<open>PermissionError\<close> of \<open>exists()\<close> leaves \<open>load_progress\<close>.)
\<close>

theorem load_progress_falls_back:
  fixes w :: "'u world"
  shows "(progress_file (disk w) \<noteq> Inaccessible \<longrightarrow>
            (\<exists>document. fst (load_progress w) = Inr document))
       \<and> (progress_file (disk w) = Missing \<or> progress_file (disk w) = Unreadable
            \<or> (\<exists>text. progress_file (disk w) = Garbled text) \<longrightarrow>
          load_progress w
            = (Inr (JObject [(''cycles'', JList []), (''patterns'', JList []),
                             (''start_time'', JStr (isoformat w (clock w 0)))]),
               w\<lparr>clock := (\<lambda>n. clock w (Suc n))\<rparr>))
       \<and> (\<forall>document. progress_file (disk w) = Holds document \<longrightarrow>
            load_progress w = (Inr document, w))
       \<and> (progress_file (disk w) = Inaccessible \<longrightarrow>
            load_progress w = (Inl (OSError ''[Errno 13] Permission denied''), w))"
  by (cases "progress_file (disk w)")
     (simp_all add: load_progress_cases default_progress_def now_def permission_denied_def)

theorem load_progress_falls_back_witness:
  "fst (load_progress corrupt_world)
     = Inr (JObject [(''cycles'', JList []), (''patterns'', JList []),
                     (''start_time'', JStr ''2026-01-01T00:00:00'')])
   \<and> clock (snd (load_progress corrupt_world)) 0 = 1
   \<and> load_progress old_branch_world = (Inr (JObject [(''test'', JStr ''data'')]), old_branch_world)"
proof -
  have c: "progress_file (disk corrupt_world) = Garbled ''{cycles: [''"
    and h: "progress_file (disk old_branch_world) = Holds (JObject [(''test'', JStr ''data'')])"
    and t: "isoformat corrupt_world (clock corrupt_world 0) = ''2026-01-01T00:00:00''"
      "clock corrupt_world (Suc 0) = 1"
    by (simp_all add: corrupt_world_def old_branch_world_def empty_disk_def ticking_world_def)
  from load_progress_falls_back [of corrupt_world] c t
  have 1: "fst (load_progress corrupt_world)
     = Inr (JObject [(''cycles'', JList []), (''patterns'', JList []),
                     (''start_time'', JStr ''2026-01-01T00:00:00'')])"
    "clock (snd (load_progress corrupt_world)) 0 = 1"
    by simp_all
  from load_progress_falls_back [of old_branch_world] h
  have 2: "load_progress old_branch_world = (Inr (JObject [(''test'', JStr ''data'')]), old_branch_world)"
    by simp
  from 1 2 show ?thesis by blast
qed

text \<open>
  Two states in which \<open>load_progress\<close> does otherwise. When the progress path cannot be examined,
  \<open>exists()\<close> raises outside the \<open>try\<close> and \<open>load_progress\<close> raises with it. When the
  file holds the JSON list \<open>[]\<close>, that list is returned, not the default document.
\<close>

theorem load_progress_counterexample:
  "load_progress locked_world = (Inl (OSError ''[Errno 13] Permission denied''), locked_world)
   \<and> load_progress list_world = (Inr (JList []), list_world)"
  by (simp add: load_progress_cases locked_world_def list_world_def empty_disk_def
      permission_denied_def)

section \<open>Properties of the cycle engine\<close>

lemma dict_get_set [simp]: "dict_get (dict_set k v entries) k = Some v"
  by (induction entries) (auto simp: dict_get_def)

lemma stored_cycles_disk: "disk w = disk v \<Longrightarrow> stored_cycles w = stored_cycles v"
  by (simp add: stored_cycles_def)

lemma save_progress_cases:
  "save_progress document w =
     (if read_only (disk w) then (Inl (OSError ''[Errno 30] Read-only file system''), w)
      else if progress_file (disk w) = Inaccessible then (Inl permission_denied, w)
      else (Inr (), w\<lparr>disk := (disk w)\<lparr>progress_file := Holds document\<rparr>\<rparr>))"
  by (simp add: save_progress_def write_guard_def)




lemma add_cycle_result_list:
  "progress_file (disk w) = Holds (JObject entries) \<Longrightarrow> dict_get entries ''cycles'' = Some (JList cs) \<Longrightarrow>
   add_cycle_result r w
     = save_progress (JObject (dict_set ''cycles'' (JList (cs @ [result_dict r])) entries)) w"
  by (simp add: add_cycle_result_def load_progress_cases)

lemma add_cycle_result_no_entry:
  "progress_file (disk w) = Holds (JObject entries) \<Longrightarrow> dict_get entries ''cycles'' = None \<Longrightarrow>
   add_cycle_result r w
     = save_progress (JObject (dict_set ''cycles'' (JList [result_dict r])
                                 (dict_set ''cycles'' (JList []) entries))) w"
  by (simp add: add_cycle_result_def load_progress_cases)

lemma add_cycle_result_default:
  "progress_file (disk w) = Missing \<or> progress_file (disk w) = Unreadable
     \<or> progress_file (disk w) = Garbled text \<Longrightarrow>
   add_cycle_result r w
     = save_progress (JObject [(''cycles'', JList [result_dict r]), (''patterns'', JList []),
                               (''start_time'', JStr (isoformat w (clock w 0)))])
         (snd (now w))"
  by (auto simp: add_cycle_result_def load_progress_cases default_progress_def dict_get_def now_def)

lemma dict_set_twice [simp]: "dict_set k v (dict_set k v' entries) = dict_set k v entries"
  by (induction entries) auto



lemma add_cycle_result_appends:
  assumes "can_append (disk w)"
  shows "\<exists>w'. add_cycle_result r w = (Inr (), w')
        \<and> stored_cycles w' = stored_cycles w @ [result_dict r]
        \<and> can_append (disk w')"
proof -
  from assms have rw: "\<not> read_only (disk w)" "progress_file (disk w) \<noteq> Inaccessible"
    by (auto simp: can_append_def)
  show ?thesis
  proof (cases "progress_file (disk w)")
    case Inaccessible
    with rw show ?thesis by simp
  next
    case (Holds document)
    with assms obtain entries where doc: "document = JObject entries"
      by (cases document) (simp_all add: can_append_def)
    show ?thesis
    proof (cases "dict_get entries ''cycles''")
      case None
      with Holds doc rw show ?thesis
        by (simp add: add_cycle_result_no_entry save_progress_cases stored_cycles_def
            can_append_def)
    next
      case (Some v)
      with assms Holds doc obtain cs where "v = JList cs"
        by (cases v) (simp_all add: can_append_def)
      with Holds doc Some rw show ?thesis
        by (simp add: add_cycle_result_list save_progress_cases stored_cycles_def can_append_def)
    qed
  next
    case Missing
    with rw show ?thesis
      by (simp add: add_cycle_result_default [of w "[]"] save_progress_cases now_def
          stored_cycles_def can_append_def dict_get_def)
  next
    case Unreadable
    with rw show ?thesis
      by (simp add: add_cycle_result_default [of w "[]"] save_progress_cases now_def
          stored_cycles_def can_append_def dict_get_def)
  next
    case (Garbled body)
    with rw show ?thesis
      by (simp add: add_cycle_result_default [of w body] save_progress_cases now_def
          stored_cycles_def can_append_def dict_get_def)
  qed
qed

lemma run_phases_keeps:
  "run_phases phases orch cs w = (r, orch1, cs1, w1) \<Longrightarrow>
   config orch1 = config orch \<and> phase_handlers orch1 = phase_handlers orch
   \<and> cycles_completed orch1 = cycles_completed orch \<and> cycle_id cs1 = cycle_id cs
   \<and> start_time cs1 = start_time cs"
proof (induction phases arbitrary: orch cs w)
  case Nil
  then show ?case by simp
next
  case (Cons phase phases)
  show ?case
  proof (cases "phase = COMPLETE")
    case True
    with Cons show ?thesis by simp
  next
    case False
    obtain rl w1' where a: "acquire (rate_limiter orch) w = (rl, w1')"
      by (cases "acquire (rate_limiter orch) w")
    show ?thesis
    proof (cases "phase_handlers orch phase")
      case None
      with Cons.prems False a show ?thesis by auto
    next
      case (Some handler)
      obtain hr w2 where h: "handler phase (phase_results cs) w1' = (hr, w2)"
        by (cases "handler phase (phase_results cs) w1'")
      show ?thesis
      proof (cases hr)
        case (Inl e)
        with Cons.prems False a Some h show ?thesis by auto
      next
        case (Inr out)
        with Cons.prems False a Some h
        have "run_phases phases (orch\<lparr>rate_limiter := rl\<rparr>)
                (cs\<lparr>current_phase := phase,
                    phase_results := (phase_results cs)(phase_value phase \<mapsto> out)\<rparr>) w2
              = (r, orch1, cs1, w1)"
          by simp
        from Cons.IH [OF this] show ?thesis by simp
      qed
    qed
  qed
qed


text \<open>The limiter and the start of a cycle read the clock and sleep; they leave the disk alone.\<close>

lemma wait_time_disk: "disk (snd (wait_time rl b w)) = disk w"
  by (simp add: wait_time_def Let_def split_beta)

lemma compute_wait_time_disk: "disk (snd (snd (compute_wait_time rl w))) = disk w"
  by (simp add: compute_wait_time_def Let_def split_beta wait_time_disk clean_old_requests_def refill_buckets_world)

lemma acquire_disk: "disk (snd (acquire rl w)) = disk w"
proof -
  obtain wait rl2 w3 where c: "compute_wait_time rl w = (wait, rl2, w3)"
    by (cases "compute_wait_time rl w")
  with compute_wait_time_disk [of rl w] have d: "disk w3 = disk w" by simp
  from c d show ?thesis
    by (simp add: acquire_def Let_def split_beta refill_buckets_world)
qed

lemma begin_cycle_disk: "disk (snd (begin_cycle n w)) = disk w"
  by (simp add: begin_cycle_def now_def Let_def split_beta)

text \<open>Handlers that keep the progress store appendable keep it so through the phases.\<close>

lemma run_phases_can_append:
  fixes w :: "'u world" and orch :: "('u, 'r) ClaudeOrchestrator"
  assumes "\<forall>p h results (v :: 'u world). phase_handlers orch p = Some h \<longrightarrow> can_append (disk v) \<longrightarrow>
             can_append (disk (snd (h p results v)))"
    and "can_append (disk w)"
    and "run_phases phases orch cs w = (r, orch1, cs1, w1)"
  shows "can_append (disk w1)"
  using assms
proof (induction phases arbitrary: orch cs w)
  case Nil
  then show ?case by simp
next
  case (Cons phase phases)
  show ?case
  proof (cases "phase = COMPLETE")
    case True
    with Cons.prems have "run_phases phases orch cs w = (r, orch1, cs1, w1)" by simp
    from Cons.IH [OF Cons.prems(1) Cons.prems(2) this] show ?thesis .
  next
    case False
    obtain rl w1' where a: "acquire (rate_limiter orch) w = (rl, w1')"
      by (cases "acquire (rate_limiter orch) w")
    from acquire_disk [of "rate_limiter orch" w] a Cons.prems(2)
    have ca: "can_append (disk w1')" by simp
    show ?thesis
    proof (cases "phase_handlers orch phase")
      case None
      with Cons.prems(3) False a ca show ?thesis by auto
    next
      case (Some handler)
      obtain hr w2 where h: "handler phase (phase_results cs) w1' = (hr, w2)"
        by (cases "handler phase (phase_results cs) w1'")
      from Cons.prems(1) Some ca have "can_append (disk (snd (handler phase (phase_results cs) w1')))"
        by blast
      with h have c2: "can_append (disk w2)" by simp
      show ?thesis
      proof (cases hr)
        case (Inl e)
        with Cons.prems(3) False a Some h c2 show ?thesis by auto
      next
        case (Inr out)
        with Cons.prems(3) False a Some h
        have run: "run_phases phases (orch\<lparr>rate_limiter := rl\<rparr>)
                (cs\<lparr>current_phase := phase,
                    phase_results := (phase_results cs)(phase_value phase \<mapsto> out)\<rparr>) w2
              = (r, orch1, cs1, w1)"
          by simp
        have keep: "\<forall>p h results (v :: 'u world).
             phase_handlers (orch\<lparr>rate_limiter := rl\<rparr>) p = Some h \<longrightarrow> can_append (disk v) \<longrightarrow>
             can_append (disk (snd (h p results v)))"
          using Cons.prems(1) by simp
        from Cons.IH [OF keep c2 run] show ?thesis .
      qed
    qed
  qed
qed

text \<open>The \<open>except\<close> block, by whether the store takes the append.\<close>

lemma cycle_failed_reports:
  fixes w :: "'u world" and orch :: "('u, 'r) ClaudeOrchestrator"
  assumes "can_append (disk w)"
  shows "\<exists>w'. cycle_failed e orch cs w
            = (Inr False, orch,
               cs\<lparr>end_time := Some (clock w 0), success := False,
                   error_message := Some (message e)\<rparr>, w')
        \<and> stored_cycles w'
            = stored_cycles w @
              [result_dict
                 \<lparr>CycleResult.cycle_id = cycle_id cs, duration_seconds = 0, phases_completed = [],
                  CycleResult.success = False, output = ''Cycle failed: '' @ message e,
                  learnings = [''Error in '' @ phase_value (current_phase cs) @ '': '' @ message e]\<rparr>]
        \<and> can_append (disk w')"
proof -
  let ?result = "\<lparr>CycleResult.cycle_id = cycle_id cs, duration_seconds = 0,
                    phases_completed = [], CycleResult.success = False,
                    output = ''Cycle failed: '' @ message e,
                    learnings = [''Error in '' @ phase_value (current_phase cs) @ '': '' @ message e]\<rparr>"
  from assms have "can_append (disk (snd (now w)))" by simp
  from add_cycle_result_appends [OF this, of ?result]
  obtain w' where a: "add_cycle_result ?result (snd (now w)) = (Inr (), w')"
    and s: "stored_cycles w' = stored_cycles (snd (now w)) @ [result_dict ?result]"
    and c: "can_append (disk w')"
    by blast
  have "stored_cycles (snd (now w)) = stored_cycles w"
    by (rule stored_cycles_disk) simp
  with a s c show ?thesis
    by (simp add: cycle_failed_def Let_def now_def)
qed


lemma cycle_body_raise:
  "run_phases all_phases orch cs0 w = (Inl e, orch1, cs1, w1) \<Longrightarrow>
   cycle_body check orch cs0 w = (Inl e, orch1, cs1, w1)"
  by (simp add: cycle_body_def)

lemma run_cycle_on_raise:
  fixes w :: "'u world" and orch :: "('u, 'r) ClaudeOrchestrator"
  assumes "begin_cycle cycle_num w = (cs0, w1)"
    and "run_phases all_phases (orch\<lparr>current_cycle := Some cs0\<rparr>) cs0 w1 = (Inl e, orch1, cs1, w2)"
  shows "run_cycle check cycle_num orch w
           = (case cycle_failed e orch1 cs1 w2 of
                (r, orch2, cs2, w3) \<Rightarrow> (r, orch2\<lparr>current_cycle := Some cs2\<rparr>, w3))"
  using assms(1) cycle_body_raise [OF assms(2), of check]
  by (simp add: run_cycle_def)



lemmas sample_defs = fresh_orchestrator_def ClaudeOrchestrator_init_def two_iterations_def
  ticking_world_def empty_disk_def third_phase_fails_def all_phases_return_def
  mock_handler_def failing_handler_def CircuitBreaker_init_def




subsection \<open>The outer loop\<close>

text \<open>The start of \<open>run\<close>: archival and the marker leave the progress store as it is.\<close>

lemma can_append_cong:
  "read_only d = read_only d' \<Longrightarrow> progress_file d = progress_file d' \<Longrightarrow>
   can_append d = can_append d'"
  by (simp add: can_append_def)

lemma set_current_branch_cases:
  "set_current_branch b w =
     (if read_only (disk w) then (Inl (OSError ''[Errno 30] Read-only file system''), snd (now w))
      else if branch_file (disk w) = Inaccessible then (Inl permission_denied, snd (now w))
      else (Inr (), (snd (now w))\<lparr>disk := (disk w)\<lparr>branch_file :=
              Holds (JObject [(''branch'', JStr b),
                              (''timestamp'', JStr (isoformat w (clock w 0)))])\<rparr>\<rparr>))"
  by (simp add: set_current_branch_def write_guard_def now_def Let_def)

lemma set_current_branch_store:
  assumes "set_current_branch b w = (Inr (), w1)"
  shows "read_only (disk w1) = read_only (disk w) \<and> progress_file (disk w1) = progress_file (disk w)
       \<and> branch_file (disk w1) \<noteq> Inaccessible"
  using assms by (auto simp: set_current_branch_cases split: if_splits)

lemma archive_returns_store:
  assumes "archive_current_state b w = (Inr (), w0)"
  shows "read_only (disk w0) = read_only (disk w) \<and> progress_file (disk w0) = progress_file (disk w)
       \<and> branch_file (disk w0) \<noteq> Inaccessible"
proof (cases "should_archive b w")
  case (Inl e)
  with assms show ?thesis by (simp add: archive_current_state_def)
next
  case (Inr go)
  show ?thesis
  proof (cases go)
    case False
    with Inr assms have "w0 = w" by (simp add: archive_current_state_def)
    moreover from Inr have "branch_file (disk w) \<noteq> Inaccessible"
      using should_archive_raises [of b w] by auto
    ultimately show ?thesis by simp
  next
    case True
    with Inr assms
    have "\<exists>w'. set_current_branch b w' = (Inr (), w0) \<and> read_only (disk w') = read_only (disk w)
               \<and> progress_file (disk w') = progress_file (disk w)"
      by (auto simp: archive_current_state_def Let_def put_folder_def now_def
          split: sum.splits prod.splits json.splits option.splits if_splits)
    then obtain w' where "set_current_branch b w' = (Inr (), w0)"
      and "read_only (disk w') = read_only (disk w)" "progress_file (disk w') = progress_file (disk w)"
      by blast
    with set_current_branch_store [of b w' w0] show ?thesis by simp
  qed
qed

lemma cycle_body_cases:
  fixes w :: "'u world" and orch :: "('u, 'r) ClaudeOrchestrator"
  assumes "run_phases all_phases orch cs0 w = (r, orch1, cs1, w1)" and "can_append (disk w1)"
  shows "(isl r \<longrightarrow> cycle_body check orch cs0 w = (Inl (projl r), orch1, cs1, w1))
       \<and> (\<not> isl r \<longrightarrow>
            (\<exists>orch2 cs2 w3. cycle_body check orch cs0 w = (Inr (check orch2 w3), orch2, cs2, w3)
               \<and> config orch2 = config orch1 \<and> phase_handlers orch2 = phase_handlers orch1
               \<and> cycles_completed orch2 = cycles_completed orch1 + 1
               \<and> can_append (disk w3)))"
proof (cases r)
  case (Inl e)
  with assms show ?thesis by (simp add: cycle_body_def)
next
  case (Inr u)
  let ?cs2 = "cs1\<lparr>end_time := Some (clock w1 0), success := True\<rparr>"
  let ?result = "\<lparr>CycleResult.cycle_id = cycle_id ?cs2,
                    duration_seconds = clock w1 0 - start_time ?cs2,
                    phases_completed = butlast all_phases, CycleResult.success = True,
                    output = ''Cycle completed successfully'',
                    learnings = map (\<lambda>p. ''Phase '' @ phase_value p @ '' executed successfully'')
                                    (filter (\<lambda>p. p \<noteq> COMPLETE) all_phases)\<rparr>"
  from assms(2) have "can_append (disk (snd (now w1)))" by simp
  from add_cycle_result_appends [OF this, of ?result]
  obtain w3 where "add_cycle_result ?result (snd (now w1)) = (Inr (), w3)" "can_append (disk w3)"
    by blast
  with assms Inr show ?thesis
    by (simp add: cycle_body_def Let_def now_def)
qed

text \<open>
  On a store that takes appends, with handlers that leave it so, \<open>_run_cycle\<close> returns a
  boolean, true only on the word of the check, and the store still takes appends.
\<close>

lemma run_cycle_returns:
  fixes w :: "'u world" and orch :: "('u, 'r) ClaudeOrchestrator"
  assumes keep: "\<forall>p h results (v :: 'u world). phase_handlers orch p = Some h \<longrightarrow>
             can_append (disk v) \<longrightarrow> can_append (disk (snd (h p results v)))"
    and store: "can_append (disk w)"
  shows "\<exists>completed orch' w'. run_cycle check cycle_num orch w = (Inr completed, orch', w')
           \<and> config orch' = config orch \<and> phase_handlers orch' = phase_handlers orch
           \<and> can_append (disk w')
           \<and> (completed \<longrightarrow> (\<exists>orch2 w3. check orch2 w3))
           \<and> (\<forall>(cs0 :: 'r CycleState) w1. begin_cycle cycle_num w = (cs0, w1) \<longrightarrow>
                 \<not> isl (fst (run_phases all_phases (orch\<lparr>current_cycle := Some cs0\<rparr>) cs0 w1)) \<longrightarrow>
                 (\<exists>orch2. completed = check orch2 w'
                     \<and> cycles_completed orch2 = cycles_completed orch + 1))"
proof -
  obtain cs0 :: "'r CycleState" and w1 where b: "begin_cycle cycle_num w = (cs0, w1)"
    by (cases "begin_cycle cycle_num w :: 'r CycleState \<times> 'u world")
  from begin_cycle_disk [of cycle_num w] b store have s1: "can_append (disk w1)"
    by (metis snd_conv)
  obtain r orch1 cs1 w2
    where p: "run_phases all_phases (orch\<lparr>current_cycle := Some cs0\<rparr>) cs0 w1 = (r, orch1, cs1, w2)"
    by (cases "run_phases all_phases (orch\<lparr>current_cycle := Some cs0\<rparr>) cs0 w1")
  from run_phases_keeps [OF p]
  have keeps: "config orch1 = config orch" "phase_handlers orch1 = phase_handlers orch"
    "cycles_completed orch1 = cycles_completed orch"
    by simp_all
  have keep': "\<forall>p h results (v :: 'u world).
      phase_handlers (orch\<lparr>current_cycle := Some cs0\<rparr>) p = Some h \<longrightarrow>
      can_append (disk v) \<longrightarrow> can_append (disk (snd (h p results v)))"
    using keep by simp
  from run_phases_can_append [OF keep' s1 p] have s2: "can_append (disk w2)" .
  show ?thesis
  proof (cases r)
    case (Inl e)
    from cycle_failed_reports [OF s2, of e orch1 cs1]
    obtain cs2 w' where "cycle_failed e orch1 cs1 w2 = (Inr False, orch1, cs2, w')"
      and "can_append (disk w')"
      by blast
    with run_cycle_on_raise [OF b, of orch e orch1 cs1 w2 check] p Inl keeps b show ?thesis
      by auto
  next
    case (Inr u)
    from cycle_body_cases [OF p s2, of check] Inr
    obtain orch2 cs2 w3
      where "cycle_body check (orch\<lparr>current_cycle := Some cs0\<rparr>) cs0 w1
               = (Inr (check orch2 w3), orch2, cs2, w3)"
        and "config orch2 = config orch1" "phase_handlers orch2 = phase_handlers orch1"
        and "cycles_completed orch2 = cycles_completed orch1 + 1" "can_append (disk w3)"
      by auto
    with b keeps show ?thesis
      by (auto simp: run_cycle_def)
  qed
qed

text \<open>
  C4. Let the configuration have \<open>max_iterations = 2\<close> and \<open>sleep_between_iterations = 0\<close>,
  let \<open>run()\<close> be called without an iteration argument, let its archival step return, and
  let the store persist: the progress store takes appends and the handlers leave it so.
  Then the marker is written, and from the world \<open>ws\<close> it leaves: with a completion check
  that is always false, \<open>run\<close> is cycle 1, a sleep of 0, cycle 2, a sleep of 0, both cycles
  returning false, and then returns false: two invocations of \<open>_run_cycle\<close>, no more and
  no fewer. With a check that holds once one more cycle has completed, and the handlers of
  the first cycle all returning, \<open>run\<close> is cycle 1 alone, which returns true, and returns
  true.
\<close>

theorem run_stops_at_limit_or_completion:
  fixes w :: "'u world" and orch :: "('u, 'r) ClaudeOrchestrator"
  assumes "max_iterations (config orch) = 2" and "sleep_between_iterations (config orch) = 0"
    and "archive_current_state current_branch w = (Inr (), w0)"
    and "can_append (disk w)"
    and "\<forall>p h results (v :: 'u world). phase_handlers orch p = Some h \<longrightarrow>
           can_append (disk v) \<longrightarrow> can_append (disk (snd (h p results v)))"
  shows "\<exists>ws. set_current_branch current_branch w0 = (Inr (), ws)
       \<and> ((\<forall>orch' w'. \<not> check orch' w') \<longrightarrow>
            (\<exists>orch1 w1 orch2 w2.
               run_cycle check 1 orch ws = (Inr False, orch1, w1)
             \<and> run_cycle check 2 orch1 (asyncio_sleep 0 w1) = (Inr False, orch2, w2)
             \<and> run check None current_branch orch w = (Inr False, orch2, asyncio_sleep 0 w2)))
       \<and> ((\<forall>orch' w'. cycles_completed orch' = cycles_completed orch + 1 \<longrightarrow> check orch' w')
            \<and> (\<forall>(cs0 :: 'r CycleState) w1.
                  begin_cycle 1 ws = (cs0, w1) \<longrightarrow>
                  \<not> isl (fst (run_phases all_phases (orch\<lparr>current_cycle := Some cs0\<rparr>) cs0 w1))) \<longrightarrow>
            (\<exists>orch1 w1.
               run_cycle check 1 orch ws = (Inr True, orch1, w1)
             \<and> run check None current_branch orch w = (Inr True, orch1, w1)))"
proof -
  note store0 = archive_returns_store [OF assms(3)]
  from store0 assms(4) have s0: "can_append (disk w0)"
    using can_append_cong [of "disk w0" "disk w"] by simp
  then have "\<not> read_only (disk w0)" by (simp add: can_append_def)
  with store0 obtain ws where m: "set_current_branch current_branch w0 = (Inr (), ws)"
    by (simp add: set_current_branch_cases)
  from set_current_branch_store [OF m] s0 have s: "can_append (disk ws)"
    using can_append_cong [of "disk ws" "disk w0"] by simp
  have upto: "[1..2] = [1, 2::int]" by (simp add: upto.simps)
  note first = run_cycle_returns [OF assms(5) s, of check 1]
  have never: "(\<forall>orch' w'. \<not> check orch' w') \<longrightarrow>
            (\<exists>orch1 w1 orch2 w2.
               run_cycle check 1 orch ws = (Inr False, orch1, w1)
             \<and> run_cycle check 2 orch1 (asyncio_sleep 0 w1) = (Inr False, orch2, w2)
             \<and> run check None current_branch orch w = (Inr False, orch2, asyncio_sleep 0 w2))"
  proof
    assume never: "\<forall>orch' w'. \<not> check orch' w'"
    from first never
    obtain orch1 w1 where c1: "run_cycle check 1 orch ws = (Inr False, orch1, w1)"
      and k1: "config orch1 = config orch" "phase_handlers orch1 = phase_handlers orch"
      and s1: "can_append (disk w1)"
      by (metis (full_types))
    from assms(5) k1 have keep1: "\<forall>p h results (v :: 'u world). phase_handlers orch1 p = Some h \<longrightarrow>
           can_append (disk v) \<longrightarrow> can_append (disk (snd (h p results v)))"
      by simp
    from s1 have s1': "can_append (disk (asyncio_sleep 0 w1))" by simp
    from run_cycle_returns [OF keep1 s1', of check 2] never
    obtain orch2 w2 where c2: "run_cycle check 2 orch1 (asyncio_sleep 0 w1) = (Inr False, orch2, w2)"
      and k2: "config orch2 = config orch1"
      by (metis (full_types))
    from c1 c2 k1 k2 assms(1,2,3) m
    have "run check None current_branch orch w = (Inr False, orch2, asyncio_sleep 0 w2)"
      by (simp add: run_def upto)
    with c1 c2
    show "\<exists>orch1 w1 orch2 w2.
               run_cycle check 1 orch ws = (Inr False, orch1, w1)
             \<and> run_cycle check 2 orch1 (asyncio_sleep 0 w1) = (Inr False, orch2, w2)
             \<and> run check None current_branch orch w = (Inr False, orch2, asyncio_sleep 0 w2)"
      by blast
  qed
  have after: "(\<forall>orch' w'. cycles_completed orch' = cycles_completed orch + 1 \<longrightarrow> check orch' w')
            \<and> (\<forall>(cs0 :: 'r CycleState) w1.
                  begin_cycle 1 ws = (cs0, w1) \<longrightarrow>
                  \<not> isl (fst (run_phases all_phases (orch\<lparr>current_cycle := Some cs0\<rparr>) cs0 w1))) \<longrightarrow>
            (\<exists>orch1 w1.
               run_cycle check 1 orch ws = (Inr True, orch1, w1)
             \<and> run check None current_branch orch w = (Inr True, orch1, w1))"
  proof
    assume h: "(\<forall>orch' w'. cycles_completed orch' = cycles_completed orch + 1 \<longrightarrow> check orch' w')
            \<and> (\<forall>(cs0 :: 'r CycleState) w1.
                  begin_cycle 1 ws = (cs0, w1) \<longrightarrow>
                  \<not> isl (fst (run_phases all_phases (orch\<lparr>current_cycle := Some cs0\<rparr>) cs0 w1)))"
    obtain cs0 :: "'r CycleState" and w1 where b: "begin_cycle 1 ws = (cs0, w1)"
      by (cases "begin_cycle 1 ws :: 'r CycleState \<times> 'u world")
    with h have ret: "\<not> isl (fst (run_phases all_phases (orch\<lparr>current_cycle := Some cs0\<rparr>) cs0 w1))"
      by blast
    from first obtain completed orch' w'
      where c1: "run_cycle check 1 orch ws = (Inr completed, orch', w')"
        and all: "\<forall>(cs0 :: 'r CycleState) w1. begin_cycle 1 ws = (cs0, w1) \<longrightarrow>
                 \<not> isl (fst (run_phases all_phases (orch\<lparr>current_cycle := Some cs0\<rparr>) cs0 w1)) \<longrightarrow>
                 (\<exists>orch2. completed = check orch2 w'
                     \<and> cycles_completed orch2 = cycles_completed orch + 1)"
      by blast
    from all b ret obtain orch2 where "completed = check orch2 w'"
      "cycles_completed orch2 = cycles_completed orch + 1"
      by blast
    with h have "completed" by blast
    with c1 have c1': "run_cycle check 1 orch ws = (Inr True, orch', w')" by simp
    with assms(1,2,3) m have "run check None current_branch orch w = (Inr True, orch', w')"
      by (simp add: run_def upto)
    with c1'
    show "\<exists>orch1 w1.
               run_cycle check 1 orch ws = (Inr True, orch1, w1)
             \<and> run check None current_branch orch w = (Inr True, orch1, w1)"
      by blast
  qed
  from m never after show ?thesis by blast
qed

text \<open>Handlers that return whatever they are given never stop the loop over the phases.\<close>

lemma run_phases_all_return:
  fixes w :: "'u world" and orch :: "('u, 'r) ClaudeOrchestrator"
  shows "\<forall>p \<in> set phases. p \<noteq> COMPLETE \<longrightarrow>
       (\<exists>h. phase_handlers orch p = Some h \<and> (\<forall>results v. \<not> isl (fst (h p results v)))) \<Longrightarrow>
   \<not> isl (fst (run_phases phases orch cs w))"
proof (induction phases arbitrary: orch cs w)
  case Nil
  then show ?case by simp
next
  case (Cons phase phases)
  show ?case
  proof (cases "phase = COMPLETE")
    case True
    with Cons show ?thesis by simp
  next
    case False
    with Cons.prems obtain h where h: "phase_handlers orch phase = Some h"
      and ret: "\<forall>results v. \<not> isl (fst (h phase results v))"
      by auto
    obtain rl w1 where a: "acquire (rate_limiter orch) w = (rl, w1)"
      by (cases "acquire (rate_limiter orch) w")
    obtain hr w2 where hw: "h phase (phase_results cs) w1 = (hr, w2)"
      by (cases "h phase (phase_results cs) w1")
    from ret have "\<not> isl (fst (h phase (phase_results cs) w1))" by blast
    with hw obtain out where out: "hr = Inr out"
      by (cases hr) auto
    have "\<not> isl (fst (run_phases phases (orch\<lparr>rate_limiter := rl\<rparr>)
                (cs\<lparr>current_phase := phase,
                    phase_results := (phase_results cs)(phase_value phase \<mapsto> out)\<rparr>) w2))"
      using Cons.prems by (intro Cons.IH) simp
    with False h a hw out show ?thesis by simp
  qed
qed

lemma all_phases_return_run:
  "\<not> isl (fst (run_phases all_phases
                  ((fst (fresh_orchestrator all_phases_return))\<lparr>current_cycle := Some cs0\<rparr>) cs0 w1))"
  by (rule run_phases_all_return)
     (simp add: fresh_orchestrator_def ClaudeOrchestrator_init_def RateLimiter_init_def now_def
       all_phases_return_def mock_handler_def)

theorem run_stops_at_limit_or_completion_witness:
  "fst (run never_complete None ''main'' (fst (fresh_orchestrator all_phases_return))
            (snd (fresh_orchestrator all_phases_return))) = Inr False
   \<and> fst (run complete_after_first None ''main'' (fst (fresh_orchestrator all_phases_return))
            (snd (fresh_orchestrator all_phases_return))) = Inr True"
proof -
  let ?orch = "fst (fresh_orchestrator all_phases_return)"
  let ?w = "snd (fresh_orchestrator all_phases_return)"
  have cfg: "max_iterations (config ?orch) = 2" "sleep_between_iterations (config ?orch) = 0"
    and fresh: "cycles_completed ?orch = 0"
    by (simp_all add: sample_defs RateLimiter_init_def now_def)
  have d: "disk ?w = empty_disk"
    by (simp add: sample_defs RateLimiter_init_def now_def)
  then have "get_current_branch ?w = Inr JNull"
    by (simp add: get_current_branch_cases empty_disk_def)
  then have "should_archive ''main'' ?w = Inr False" by (simp add: should_archive_def)
  then have arch: "archive_current_state ''main'' ?w = (Inr (), ?w)" by (rule archive_noop)
  from d have store: "can_append (disk ?w)" by (simp add: can_append_def empty_disk_def)
  have keep: "\<forall>p h results (v :: unit world). phase_handlers ?orch p = Some h \<longrightarrow>
           can_append (disk v) \<longrightarrow> can_append (disk (snd (h p results v)))"
    by (simp add: fresh_orchestrator_def ClaudeOrchestrator_init_def RateLimiter_init_def now_def
        all_phases_return_def mock_handler_def)
  from run_stops_at_limit_or_completion [OF cfg arch store keep, of never_complete]
  have 1: "fst (run never_complete None ''main'' ?orch ?w) = Inr False"
    by (fastforce simp: never_complete_def)
  have always: "\<forall>orch' w'. cycles_completed orch' = cycles_completed ?orch + 1
          \<longrightarrow> complete_after_first orch' w'"
    by (simp add: fresh complete_after_first_def)
  from run_stops_at_limit_or_completion [OF cfg arch store keep, of complete_after_first]
  obtain ws where after: "(\<forall>orch' w'. cycles_completed orch' = cycles_completed ?orch + 1
                             \<longrightarrow> complete_after_first orch' w')
            \<and> (\<forall>(cs0 :: string CycleState) w1.
                  begin_cycle 1 ws = (cs0, w1) \<longrightarrow>
                  \<not> isl (fst (run_phases all_phases (?orch\<lparr>current_cycle := Some cs0\<rparr>) cs0 w1))) \<longrightarrow>
            (\<exists>orch1 w1.
               run_cycle complete_after_first 1 ?orch ws = (Inr True, orch1, w1)
             \<and> run complete_after_first None ''main'' ?orch ?w = (Inr True, orch1, w1))"
    by blast
  from after always all_phases_return_run
  have 2: "fst (run complete_after_first None ''main'' ?orch ?w) = Inr True"
    by fastforce
  from 1 2 show ?thesis by blast
qed

end
